theory Spec2Isabelle
  imports Main "HOL-Library.Word" "HOL-Library.Multiset"
begin

section \<open>Go runtime primitives\<close>

text \<open>
  The programs are goroutines that meet on buffered channels, a wait group and an atomic
  counter. A run is an interleaving of atomic operations: each operation on a channel,
  on the wait group or on the counter is one step of one goroutine. A step that the Go
  runtime would suspend is \<open>Blocked\<close> (the goroutine does not move), a step on
  which the runtime panics is \<open>Panicked\<close>.
\<close>

datatype panic =
    CloseOfClosedChannel
  | SendOnClosedChannel
  | NegativeWaitGroupCounter
  | MakechanSizeOutOfRange

datatype halt = Blocked | Panicked panic

text \<open>A buffered channel \<open>make(chan T, cap)\<close>: the queue, its capacity, the closed flag.\<close>

record 'a chan =
  buf :: "'a list"
  cap :: nat
  closed :: bool

definition make_chan :: "nat \<Rightarrow> 'a chan" where
  "make_chan n = \<lparr>buf = [], cap = n, closed = False\<rparr>"

text \<open>
  \<open>ch <- v\<close>, where \<open>receivers\<close> goroutines stand at a receive from the channel.
  It panics on a closed channel. It completes when the buffer has room, and on an
  unbuffered channel (capacity 0) when a receiver waits and no earlier value is still on
  its way to one: the value is handed over, and \<open>buf\<close> holds it until that receiver
  moves. Otherwise it suspends.
\<close>

definition chan_send :: "'a \<Rightarrow> nat \<Rightarrow> 'a chan \<Rightarrow> halt + 'a chan" where
  "chan_send v receivers ch =
     (if closed ch then Inl (Panicked SendOnClosedChannel)
      else if length (buf ch) < cap ch \<or> (cap ch = 0 \<and> buf ch = [] \<and> 0 < receivers)
      then Inr (ch\<lparr>buf := buf ch @ [v]\<rparr>)
      else Inl Blocked)"

text \<open>
  \<open>v, more := <-ch\<close>: the oldest buffered value with \<open>more = true\<close>; on an empty
  closed channel \<open>more = false\<close> (\<open>None\<close> here); suspends on an empty open one.
\<close>

definition chan_recv :: "'a chan \<Rightarrow> halt + ('a option \<times> 'a chan)" where
  "chan_recv ch =
     (case buf ch of
        v # vs \<Rightarrow> Inr (Some v, ch\<lparr>buf := vs\<rparr>)
      | [] \<Rightarrow> if closed ch then Inr (None, ch) else Inl Blocked)"

text \<open>\<open>close(ch)\<close>: panics on a channel that is already closed.\<close>

definition chan_close :: "'a chan \<Rightarrow> halt + 'a chan" where
  "chan_close ch =
     (if closed ch then Inl (Panicked CloseOfClosedChannel)
      else Inr (ch\<lparr>closed := True\<rparr>))"

text \<open>\<open>sync.WaitGroup\<close>: its counter. \<open>Done\<close> panics below zero, \<open>Wait\<close> suspends above.\<close>

definition wg_Done :: "int \<Rightarrow> halt + int" where
  "wg_Done c = (if c - 1 < 0 then Inl (Panicked NegativeWaitGroupCounter) else Inr (c - 1))"

definition wg_Wait :: "int \<Rightarrow> halt + unit" where
  "wg_Wait c = (if c = 0 then Inr () else Inl Blocked)"


section \<open>The concurrent task executor\<close>

text \<open>
  The executor of the concurrent task workers (\<open>Task\<close>, \<open>TaskExecutor\<close>,
  \<open>InitializeTaskExecutor\<close>, \<open>AddTask\<close>, \<open>Close\<close>, \<open>BlockOn\<close>,
  \<open>TaskWorker\<close>); line numbers are those of its source file. \<open>atomic.Int32\<close> is a
  32-bit word, read as two's complement.
\<close>

type_synonym int32 = "32 word"

text \<open>
  \<open>Task[RType]\<close>; its field \<open>id\<close> is \<open>task_id\<close> here. The job
  \<open>func() RType\<close> is a thunk: it is taken to return, and to touch nothing of the
  executor.
\<close>

record 'r Task =
  task_id :: int32
  job :: "unit \<Rightarrow> 'r"
  description :: string

text \<open>
  Where a goroutine running \<open>TaskWorker\<close> stands: before the receive of line 131,
  before \<open>task.job()\<close>, before the write to the results map (lock, write and unlock of
  lines 139 to 141 are one step: nothing else takes the mutex), before
  \<open>jobcounter.Load()\<close>, before \<open>jobcounter.Swap(oldjobcounter - 1)\<close>, before
  \<open>wg.Done()\<close>, and after it, where only the \<open>break\<close> out of the loop and the
  return are left.
\<close>

datatype 'r worker_pc =
    W_Recv
  | W_Exec "'r Task"
  | W_Store "'r Task" 'r
  | W_Load "'r Task"
  | W_Swap "'r Task" int32
  | W_Done
  | W_Exited

text \<open>The workers that stand at the receive from the jobs channel.\<close>

fun at_receive :: "'r worker_pc \<Rightarrow> bool" where
  "at_receive W_Recv = True"
| "at_receive _ = False"

text \<open>The calls a client goroutine makes on the executor.\<close>

datatype 'r api = AddTask "unit \<Rightarrow> 'r" string | Close | BlockOn

text \<open>
  Where a client goroutine stands inside a call: \<open>AddTask\<close> before the load of the
  counter, before the send, before \<open>Add(1)\<close>; \<open>Close\<close> before \<open>JobsDone()\<close> and
  before \<open>close(jobs)\<close>; \<open>BlockOn\<close> before \<open>wg.Wait()\<close>. \<open>C_Idle\<close> is outside
  every call.
\<close>

datatype 'r client_pc =
    C_Idle
  | C_AddTask_Load "unit \<Rightarrow> 'r" string
  | C_AddTask_Send "'r Task"
  | C_AddTask_Add
  | C_Close_JobsDone
  | C_Close_close
  | C_BlockOn_Wait

text \<open>
  \<open>TaskExecutor[RType]\<close> with what its pointers and reference fields share: the
  counter, the wait group, the channel and the map. \<open>pool\<close> holds the worker
  goroutines, \<open>clients\<close> the goroutines that call the executor (any number, each
  outside every call at first). The mutex \<open>mu\<close> has no field: it is held only
  around the write to the map, which is one step. \<open>received\<close> and \<open>stored\<close> are
  history, read by no step: the tasks the workers took from the channel, and the tasks
  whose result was written.
\<close>

record 'r TaskExecutor =
  workers :: int
  jobcounter :: int32
  wg :: int
  jobs :: "'r Task chan"
  results :: "int32 \<rightharpoonup> 'r"
  pool :: "'r worker_pc list"
  clients :: "nat \<Rightarrow> 'r client_pc"
  received :: "'r Task list"
  stored :: "'r Task list"

text \<open>\<open>for workerid := range workers\<close>: no iteration for \<open>workers \<le> 0\<close>.\<close>

definition range_int :: "int \<Rightarrow> int list" where
  "range_int n = map int [0 ..< nat n]"

text \<open>The loop of lines 70 to 73: \<open>go TaskWorker(...)\<close>, then \<open>wg.Add(1)\<close>.\<close>

fun spawn_workers :: "int list \<Rightarrow> 'r TaskExecutor \<Rightarrow> 'r TaskExecutor" where
  "spawn_workers [] e = e"
| "spawn_workers (workerid # ids) e =
     spawn_workers ids (e\<lparr>pool := pool e @ [W_Recv], wg := wg e + 1\<rparr>)"

definition InitializeTaskExecutor :: "int \<Rightarrow> halt + 'r TaskExecutor" where
  "InitializeTaskExecutor n =
     Inr (spawn_workers (range_int n)
       \<lparr>workers = n, jobcounter = 0, wg = 0, jobs = make_chan 10, results = Map.empty,
        pool = [], clients = (\<lambda>_. C_Idle), received = [], stored = []\<rparr>)"

text \<open>One step of worker \<open>w\<close> (\<open>TaskWorker\<close>, lines 128 to 156).\<close>

definition worker_step :: "nat \<Rightarrow> 'r TaskExecutor \<Rightarrow> halt + 'r TaskExecutor" where
  "worker_step w e =
     (if length (pool e) \<le> w then Inl Blocked
      else case pool e ! w of
        W_Recv \<Rightarrow>
          (case chan_recv (jobs e) of
             Inl h \<Rightarrow> Inl h
           | Inr (Some task, ch) \<Rightarrow>
               Inr (e\<lparr>jobs := ch, pool := (pool e)[w := W_Exec task],
                      received := received e @ [task]\<rparr>)
           | Inr (None, ch) \<Rightarrow> Inr (e\<lparr>jobs := ch, pool := (pool e)[w := W_Done]\<rparr>))
      | W_Exec task \<Rightarrow> Inr (e\<lparr>pool := (pool e)[w := W_Store task (job task ())]\<rparr>)
      | W_Store task returnValue \<Rightarrow>
          Inr (e\<lparr>results := (results e)(task_id task \<mapsto> returnValue),
                 pool := (pool e)[w := W_Load task],
                 stored := stored e @ [task]\<rparr>)
      | W_Load task \<Rightarrow> Inr (e\<lparr>pool := (pool e)[w := W_Swap task (jobcounter e)]\<rparr>)
      | W_Swap task oldjobcounter \<Rightarrow>
          Inr (e\<lparr>jobcounter := oldjobcounter - 1, pool := (pool e)[w := W_Recv]\<rparr>)
      | W_Done \<Rightarrow>
          (case wg_Done (wg e) of
             Inl h \<Rightarrow> Inl h
           | Inr c \<Rightarrow> Inr (e\<lparr>wg := c, pool := (pool e)[w := W_Exited]\<rparr>))
      | W_Exited \<Rightarrow> Inl Blocked)"

text \<open>
  One step of client \<open>i\<close> inside \<open>AddTask\<close> (lines 79 to 90), \<open>Close\<close> (lines 117
  to 124; a turn of its loop that reads a counter other than zero changes nothing) or
  \<open>BlockOn\<close> (lines 110 to 112).
\<close>

definition client_step :: "nat \<Rightarrow> 'r TaskExecutor \<Rightarrow> halt + 'r TaskExecutor" where
  "client_step i e =
     (case clients e i of
        C_Idle \<Rightarrow> Inl Blocked
      | C_AddTask_Load j d \<Rightarrow>
          Inr (e\<lparr>clients := (clients e)
            (i := C_AddTask_Send \<lparr>task_id = jobcounter e, job = j, description = d\<rparr>)\<rparr>)
      | C_AddTask_Send task \<Rightarrow>
          (case chan_send task (length (filter at_receive (pool e))) (jobs e) of
             Inl h \<Rightarrow> Inl h
           | Inr ch \<Rightarrow> Inr (e\<lparr>jobs := ch, clients := (clients e)(i := C_AddTask_Add)\<rparr>))
      | C_AddTask_Add \<Rightarrow>
          Inr (e\<lparr>jobcounter := jobcounter e + 1, clients := (clients e)(i := C_Idle)\<rparr>)
      | C_Close_JobsDone \<Rightarrow>
          (if jobcounter e = 0
           then Inr (e\<lparr>clients := (clients e)(i := C_Close_close)\<rparr>)
           else Inr e)
      | C_Close_close \<Rightarrow>
          (case chan_close (jobs e) of
             Inl h \<Rightarrow> Inl h
           | Inr ch \<Rightarrow> Inr (e\<lparr>jobs := ch, clients := (clients e)(i := C_Idle)\<rparr>))
      | C_BlockOn_Wait \<Rightarrow>
          (case wg_Wait (wg e) of
             Inl h \<Rightarrow> Inl h
           | Inr _ \<Rightarrow> Inr (e\<lparr>clients := (clients e)(i := C_Idle)\<rparr>)))"

text \<open>A client outside every call enters one.\<close>

fun api_entry :: "'r api \<Rightarrow> 'r client_pc" where
  "api_entry (AddTask j d) = C_AddTask_Load j d"
| "api_entry Close = C_Close_JobsDone"
| "api_entry BlockOn = C_BlockOn_Wait"

definition client_call :: "nat \<Rightarrow> 'r api \<Rightarrow> 'r TaskExecutor \<Rightarrow> halt + 'r TaskExecutor" where
  "client_call i a e =
     (if clients e i = C_Idle then Inr (e\<lparr>clients := (clients e)(i := api_entry a)\<rparr>)
      else Inl Blocked)"

text \<open>What the scheduler picks next, and a run under a schedule.\<close>

datatype 'r action = Call nat "'r api" | Client nat | Worker nat

fun step :: "'r action \<Rightarrow> 'r TaskExecutor \<Rightarrow> halt + 'r TaskExecutor" where
  "step (Call i a) e = client_call i a e"
| "step (Client i) e = client_step i e"
| "step (Worker w) e = worker_step w e"

fun run :: "'r action list \<Rightarrow> 'r TaskExecutor \<Rightarrow> halt + 'r TaskExecutor" where
  "run [] e = Inr e"
| "run (a # as) e = (case step a e of Inl h \<Rightarrow> Inl h | Inr e' \<Rightarrow> run as e')"

text \<open>\<open>GetResults\<close>, \<open>GetResultByTaskId\<close> (the zero value is \<open>None\<close>) and \<open>JobsDone\<close>.\<close>

definition GetResults :: "'r TaskExecutor \<Rightarrow> (int32 \<rightharpoonup> 'r)" where
  "GetResults e = results e"

definition GetResultByTaskId :: "'r TaskExecutor \<Rightarrow> int32 \<Rightarrow> 'r option" where
  "GetResultByTaskId e taskid = results e taskid"

definition JobsDone :: "'r TaskExecutor \<Rightarrow> bool" where
  "JobsDone e = (jobcounter e = 0)"

text \<open>A program: \<open>InitializeTaskExecutor(n)\<close>, then the goroutines run under a schedule.\<close>

definition run_program :: "int \<Rightarrow> 'r action list \<Rightarrow> halt + 'r TaskExecutor" where
  "run_program n sched =
     (case InitializeTaskExecutor n of Inl h \<Rightarrow> Inl h | Inr e \<Rightarrow> run sched e)"


section \<open>The port scanner\<close>

text \<open>
  \<open>port-scanner/main.go\<close>; line numbers are those of this file. A port is a Go
  \<open>int\<close>, on a 64-bit platform; comparisons read it as two's complement.
\<close>

type_synonym go_int = "64 word"

record ScanResult =
  Port :: go_int
  Open :: bool
  Service :: string

text \<open>
  \<open>PortScanner\<close>; the timeout is a \<open>time.Duration\<close>, in nanoseconds, and its
  field \<open>workers\<close> is \<open>scan_workers\<close> here.
\<close>

record PortScanner =
  host :: string
  timeout :: int
  scan_workers :: int

definition commonPorts :: "(go_int \<times> string) list" where
  "commonPorts =
     [(20, ''FTP Data''), (21, ''FTP Control''), (22, ''SSH''), (23, ''Telnet''),
      (25, ''SMTP''), (53, ''DNS''), (80, ''HTTP''), (110, ''POP3''), (143, ''IMAP''),
      (443, ''HTTPS''), (445, ''SMB''), (3306, ''MySQL''), (3389, ''RDP''),
      (5432, ''PostgreSQL''), (5900, ''VNC'')]"

text \<open>\<open>commonPorts[port]\<close>: a Go map gives the zero value, the empty string, for a missing key.\<close>

definition commonPorts_at :: "go_int \<Rightarrow> string" where
  "commonPorts_at port = (case map_of commonPorts port of Some name \<Rightarrow> name | None \<Rightarrow> [])"

definition NewPortScanner :: "string \<Rightarrow> int \<Rightarrow> int \<Rightarrow> PortScanner" where
  "NewPortScanner h t w = \<lparr>host = h, timeout = t, scan_workers = w\<rparr>"

text \<open>The verb \<open>%d\<close> of \<open>fmt.Sprintf\<close>: decimal digits, with a sign when negative.\<close>

fun digits :: "nat \<Rightarrow> string" where
  "digits n =
     (if n < 10 then [''0123456789'' ! n]
      else digits (n div 10) @ [''0123456789'' ! (n mod 10)])"

declare digits.simps [simp del]

definition fmt_d :: "int \<Rightarrow> string" where
  "fmt_d i = (if i < 0 then CHR ''-'' # digits (nat (- i)) else digits (nat i))"

text \<open>
  The network is outside the program: \<open>net network address timeout\<close> says whether a
  handshake with \<open>address\<close> completes within \<open>timeout\<close>. The program's side of it is
  a log of the connections it opened and closed; a connection is named by its place in
  the log.
\<close>

type_synonym network = "string \<Rightarrow> string \<Rightarrow> int \<Rightarrow> bool"

datatype conn = Conn nat

datatype net_event = Opened nat string | Closed nat

datatype dial_error = DialFailed

definition DialTimeout ::
  "network \<Rightarrow> string \<Rightarrow> string \<Rightarrow> int \<Rightarrow> net_event list
    \<Rightarrow> (dial_error + conn) \<times> net_event list" where
  "DialTimeout net nw address t log =
     (if net nw address t then (Inr (Conn (length log)), log @ [Opened (length log) address])
      else (Inl DialFailed, log))"

fun conn_Close :: "conn \<Rightarrow> net_event list \<Rightarrow> net_event list" where
  "conn_Close (Conn c) log = log @ [Closed c]"

text \<open>\<open>ScanPort\<close>, lines 49 to 65.\<close>

definition ScanPort ::
  "network \<Rightarrow> PortScanner \<Rightarrow> go_int \<Rightarrow> net_event list \<Rightarrow> ScanResult \<times> net_event list" where
  "ScanPort net ps port log =
     (let address = host ps @ '':'' @ fmt_d (sint port);
          (dialed, log1) = DialTimeout net ''tcp'' address (timeout ps) log;
          result = \<lparr>Port = port, Open = False, Service = commonPorts_at port\<rparr>
      in case dialed of
           Inr c \<Rightarrow> (result\<lparr>Open := True\<rparr>, conn_Close c log1)
         | Inl err \<Rightarrow> (result, log1))"

text \<open>
  \<open>sort.Slice\<close> with \<open>scanResults[i].Port < scanResults[j].Port\<close>: the results in
  ascending order of their ports, as signed integers. (The library's sort is not stable;
  results of equal port are modelled in their order of arrival.)
\<close>

definition sort_by_Port :: "ScanResult list \<Rightarrow> ScanResult list" where
  "sort_by_Port rs = sort_key (\<lambda>r. sint (Port r)) rs"

text \<open>
  A worker goroutine of a scan, \<open>for port := range jobs { results <- ps.ScanPort(port) }\<close>
  with its deferred \<open>wg.Done()\<close>: before the receive, before \<open>ScanPort\<close>, before the
  send, before \<open>wg.Done()\<close>, and gone.
\<close>

datatype scan_worker_pc =
    SW_Recv
  | SW_Scan go_int
  | SW_Send ScanResult
  | SW_Done
  | SW_Exited

text \<open>
  The goroutine that sends the jobs. In \<open>ScanRange\<close> (lines 87 to 91) it counts
  \<open>port\<close> up to \<open>endPort\<close> and ends; in \<open>ScanSpecificPorts\<close> (lines 182 to 187)
  it walks the slice and then closes the jobs channel.
\<close>

datatype sender_pc =
    S_Range go_int go_int
  | S_Ports "go_int list"
  | S_Exited

text \<open>The workers that stand at the receive from the jobs channel.\<close>

fun scan_at_receive :: "scan_worker_pc \<Rightarrow> bool" where
  "scan_at_receive SW_Recv = True"
| "scan_at_receive _ = False"

text \<open>The goroutine \<open>wg.Wait(); close(results)\<close>.\<close>

datatype closer_pc = CL_Wait | CL_close | CL_Exited

text \<open>The caller: collecting from the results channel, or back with the sorted slice.\<close>

datatype main_pc = M_Collect "ScanResult list" | M_Returned "ScanResult list"

text \<open>The caller is the one receiver of the results channel, while it collects.\<close>

fun collecting :: "main_pc \<Rightarrow> nat" where
  "collecting (M_Collect scanResults) = 1"
| "collecting (M_Returned rs) = 0"

record scan =
  scanner :: PortScanner
  jobs_ch :: "go_int chan"
  results_ch :: "ScanResult chan"
  scan_wg :: int
  scan_pool :: "scan_worker_pc list"
  sender :: sender_pc
  closer :: closer_pc
  main :: main_pc
  netlog :: "net_event list"

text \<open>
  \<open>make(chan T, n)\<close> for an \<open>n\<close> known at run time only, as the Go runtime's
  \<open>makechan\<close> has it: with \<open>elemsize\<close> the size of \<open>T\<close> in bytes, it panics
  when \<open>n\<close> is negative and when \<open>elemsize * n\<close> bytes are more than the allocator
  takes beside the channel's header. The bounds are those of 64-bit Linux: \<open>maxAlloc\<close>
  is \<open>2^48\<close> bytes and the header has 96. An \<open>int\<close> has 8 bytes and a
  \<open>ScanResult\<close> 32 (an \<open>int\<close>, a padded \<open>bool\<close> and a string header).
\<close>

definition maxAlloc :: nat where
  "maxAlloc = 2 ^ 48"

definition hchanSize :: nat where
  "hchanSize = 96"

definition makechan :: "nat \<Rightarrow> go_int \<Rightarrow> halt + 'a chan" where
  "makechan elemsize n =
     (if word_sless n 0 \<or> maxAlloc - hchanSize < elemsize * unat n
      then Inl (Panicked MakechanSizeOutOfRange)
      else Inr (make_chan (unat n)))"

text \<open>\<open>for i := 0; i < ps.workers; i++ { wg.Add(1); go func() {...}() }\<close>\<close>

fun spawn_scanners :: "int list \<Rightarrow> scan \<Rightarrow> scan" where
  "spawn_scanners [] s = s"
| "spawn_scanners (i # ids) s =
     spawn_scanners ids (s\<lparr>scan_wg := scan_wg s + 1, scan_pool := scan_pool s @ [SW_Recv]\<rparr>)"

text \<open>
  \<open>ScanRange\<close> up to the collecting loop: the two channels, the workers, the sender
  and the closer (lines 67 to 100).
\<close>

definition ScanRange_start :: "PortScanner \<Rightarrow> go_int \<Rightarrow> go_int \<Rightarrow> halt + scan" where
  "ScanRange_start ps startPort endPort =
     (case makechan 8 (endPort - startPort + 1) of
        Inl h \<Rightarrow> Inl h
      | Inr js \<Rightarrow>
          (case makechan 32 (endPort - startPort + 1) of
             Inl h \<Rightarrow> Inl h
           | Inr rs \<Rightarrow>
               Inr (spawn_scanners (range_int (scan_workers ps))
                 \<lparr>scanner = ps, jobs_ch = js, results_ch = rs, scan_wg = 0, scan_pool = [],
                  sender = S_Range startPort endPort, closer = CL_Wait, main = M_Collect [],
                  netlog = []\<rparr>)))"

text \<open>
  \<open>ScanSpecificPorts\<close> up to the collecting loop (lines 164 to 196); \<open>len(ports)\<close>
  is the length of the slice as a Go \<open>int\<close>.
\<close>

definition ScanSpecificPorts_start :: "PortScanner \<Rightarrow> go_int list \<Rightarrow> halt + scan" where
  "ScanSpecificPorts_start ps ports =
     (case makechan 8 (of_nat (length ports)) of
        Inl h \<Rightarrow> Inl h
      | Inr js \<Rightarrow>
          (case makechan 32 (of_nat (length ports)) of
             Inl h \<Rightarrow> Inl h
           | Inr rs \<Rightarrow>
               Inr (spawn_scanners (range_int (scan_workers ps))
                 \<lparr>scanner = ps, jobs_ch = js, results_ch = rs, scan_wg = 0, scan_pool = [],
                  sender = S_Ports ports, closer = CL_Wait, main = M_Collect [],
                  netlog = []\<rparr>)))"

definition scan_worker_step :: "network \<Rightarrow> nat \<Rightarrow> scan \<Rightarrow> halt + scan" where
  "scan_worker_step net w s =
     (if length (scan_pool s) \<le> w then Inl Blocked
      else case scan_pool s ! w of
        SW_Recv \<Rightarrow>
          (case chan_recv (jobs_ch s) of
             Inl h \<Rightarrow> Inl h
           | Inr (Some port, ch) \<Rightarrow>
               Inr (s\<lparr>jobs_ch := ch, scan_pool := (scan_pool s)[w := SW_Scan port]\<rparr>)
           | Inr (None, ch) \<Rightarrow>
               Inr (s\<lparr>jobs_ch := ch, scan_pool := (scan_pool s)[w := SW_Done]\<rparr>))
      | SW_Scan port \<Rightarrow>
          (case ScanPort net (scanner s) port (netlog s) of
             (r, log) \<Rightarrow> Inr (s\<lparr>scan_pool := (scan_pool s)[w := SW_Send r], netlog := log\<rparr>))
      | SW_Send r \<Rightarrow>
          (case chan_send r (collecting (main s)) (results_ch s) of
             Inl h \<Rightarrow> Inl h
           | Inr ch \<Rightarrow> Inr (s\<lparr>results_ch := ch, scan_pool := (scan_pool s)[w := SW_Recv]\<rparr>))
      | SW_Done \<Rightarrow>
          (case wg_Done (scan_wg s) of
             Inl h \<Rightarrow> Inl h
           | Inr c \<Rightarrow> Inr (s\<lparr>scan_wg := c, scan_pool := (scan_pool s)[w := SW_Exited]\<rparr>))
      | SW_Exited \<Rightarrow> Inl Blocked)"

definition sender_step :: "scan \<Rightarrow> halt + scan" where
  "sender_step s =
     (case sender s of
        S_Range port endPort \<Rightarrow>
          (if word_sle port endPort
           then (case chan_send port (length (filter scan_at_receive (scan_pool s)))
                        (jobs_ch s) of
                   Inl h \<Rightarrow> Inl h
                 | Inr ch \<Rightarrow> Inr (s\<lparr>jobs_ch := ch, sender := S_Range (port + 1) endPort\<rparr>))
           else Inr (s\<lparr>sender := S_Exited\<rparr>))
      | S_Ports (port # rest) \<Rightarrow>
          (case chan_send port (length (filter scan_at_receive (scan_pool s))) (jobs_ch s) of
             Inl h \<Rightarrow> Inl h
           | Inr ch \<Rightarrow> Inr (s\<lparr>jobs_ch := ch, sender := S_Ports rest\<rparr>))
      | S_Ports [] \<Rightarrow>
          (case chan_close (jobs_ch s) of
             Inl h \<Rightarrow> Inl h
           | Inr ch \<Rightarrow> Inr (s\<lparr>jobs_ch := ch, sender := S_Exited\<rparr>))
      | S_Exited \<Rightarrow> Inl Blocked)"

definition closer_step :: "scan \<Rightarrow> halt + scan" where
  "closer_step s =
     (case closer s of
        CL_Wait \<Rightarrow>
          (case wg_Wait (scan_wg s) of Inl h \<Rightarrow> Inl h | Inr _ \<Rightarrow> Inr (s\<lparr>closer := CL_close\<rparr>))
      | CL_close \<Rightarrow>
          (case chan_close (results_ch s) of
             Inl h \<Rightarrow> Inl h
           | Inr ch \<Rightarrow> Inr (s\<lparr>results_ch := ch, closer := CL_Exited\<rparr>))
      | CL_Exited \<Rightarrow> Inl Blocked)"

definition main_step :: "scan \<Rightarrow> halt + scan" where
  "main_step s =
     (case main s of
        M_Collect scanResults \<Rightarrow>
          (case chan_recv (results_ch s) of
             Inl h \<Rightarrow> Inl h
           | Inr (Some r, ch) \<Rightarrow>
               Inr (s\<lparr>results_ch := ch, main := M_Collect (scanResults @ [r])\<rparr>)
           | Inr (None, ch) \<Rightarrow>
               Inr (s\<lparr>results_ch := ch, main := M_Returned (sort_by_Port scanResults)\<rparr>))
      | M_Returned r \<Rightarrow> Inl Blocked)"

datatype scan_action = Scanner nat | Sender | Closer | Main

fun scan_step :: "network \<Rightarrow> scan_action \<Rightarrow> scan \<Rightarrow> halt + scan" where
  "scan_step net (Scanner w) s = scan_worker_step net w s"
| "scan_step net Sender s = sender_step s"
| "scan_step net Closer s = closer_step s"
| "scan_step net Main s = main_step s"

fun scan_run :: "network \<Rightarrow> scan_action list \<Rightarrow> scan \<Rightarrow> halt + scan" where
  "scan_run net [] s = Inr s"
| "scan_run net (a # as) s =
     (case scan_step net a s of Inl h \<Rightarrow> Inl h | Inr s' \<Rightarrow> scan_run net as s')"

text \<open>The whole call under a schedule, and what it has returned, if it has.\<close>

definition ScanRange ::
  "network \<Rightarrow> PortScanner \<Rightarrow> go_int \<Rightarrow> go_int \<Rightarrow> scan_action list \<Rightarrow> halt + scan" where
  "ScanRange net ps startPort endPort sched =
     (case ScanRange_start ps startPort endPort of
        Inl h \<Rightarrow> Inl h
      | Inr s \<Rightarrow> scan_run net sched s)"

definition ScanSpecificPorts ::
  "network \<Rightarrow> PortScanner \<Rightarrow> go_int list \<Rightarrow> scan_action list \<Rightarrow> halt + scan" where
  "ScanSpecificPorts net ps ports sched =
     (case ScanSpecificPorts_start ps ports of
        Inl h \<Rightarrow> Inl h
      | Inr s \<Rightarrow> scan_run net sched s)"

fun returned :: "main_pc \<Rightarrow> ScanResult list option" where
  "returned (M_Returned rs) = Some rs"
| "returned (M_Collect acc) = None"


section \<open>Invariants and sample schedules of the task executor\<close>












text \<open>A client inside \<open>Close\<close>.\<close>

fun in_Close :: "'r client_pc \<Rightarrow> bool" where
  "in_Close C_Close_JobsDone = True"
| "in_Close C_Close_close = True"
| "in_Close _ = False"

text \<open>
  Client \<open>i\<close> submits a job that returns \<open>v\<close>, and worker 0 runs it to the end
  (receive, job, write, load, swap) before anything else happens.
\<close>

definition submit_and_complete :: "nat \<Rightarrow> int \<Rightarrow> int action list" where
  "submit_and_complete i v =
     [Call i (AddTask (\<lambda>_. v) []), Client i, Client i, Client i,
      Worker 0, Worker 0, Worker 0, Worker 0, Worker 0]"

text \<open>Client \<open>i\<close> calls \<open>Close\<close>, worker 0 leaves, client \<open>i\<close> calls \<open>BlockOn\<close>.\<close>

definition close_and_join :: "nat \<Rightarrow> int action list" where
  "close_and_join i =
     [Call i Close, Client i, Client i, Worker 0, Worker 0, Call i BlockOn, Client i]"


section \<open>Invariants of the scans\<close>

text \<open>A network on which nothing but \<open>localhost:22\<close> answers.\<close>

definition only_ssh :: network where
  "only_ssh nw address t = (nw = ''tcp'' \<and> address = ''localhost:22'')"

text \<open>A worker that is still in its loop, and the sender of \<open>ScanRange\<close>.\<close>

fun scanning :: "scan_worker_pc \<Rightarrow> bool" where
  "scanning SW_Recv = True"
| "scanning (SW_Scan port) = True"
| "scanning (SW_Send r) = True"
| "scanning _ = False"

fun range_sender :: "sender_pc \<Rightarrow> bool" where
  "range_sender (S_Ports ports) = False"
| "range_sender _ = True"

text \<open>
  \<open>ScanRange\<close> with at least one worker: nobody closes the jobs channel, so every
  worker stays in its loop, the wait group stays above zero, the closer waits and the
  results channel stays open.
\<close>

definition range_waiting :: "scan \<Rightarrow> bool" where
  "range_waiting s =
     (scan_pool s \<noteq> [] \<and> list_all scanning (scan_pool s)
      \<and> scan_wg s = int (length (scan_pool s))
      \<and> range_sender (sender s) \<and> closer s = CL_Wait \<and> returned (main s) = None
      \<and> \<not> closed (jobs_ch s) \<and> \<not> closed (results_ch s))"

text \<open>\<open>ScanRange\<close> without workers: nothing is ever sent on the results channel.\<close>

definition range_idle :: "scan \<Rightarrow> bool" where
  "range_idle s =
     (scan_pool s = [] \<and> range_sender (sender s) \<and> \<not> closed (jobs_ch s)
      \<and> buf (results_ch s) = []
      \<and> (closer s = CL_Exited \<or> \<not> closed (results_ch s))
      \<and> (main s = M_Collect [] \<or> main s = M_Returned []))"

text \<open>
  \<open>ScanSpecificPorts\<close>. Where each requested port is: not sent yet, in the jobs
  channel, with a worker (as a port, or as the result of its scan), in the results
  channel, or collected by the caller.
\<close>

fun unsent :: "sender_pc \<Rightarrow> go_int list" where
  "unsent (S_Ports rest) = rest"
| "unsent _ = []"

fun list_sender :: "sender_pc \<Rightarrow> bool" where
  "list_sender (S_Range port endPort) = False"
| "list_sender _ = True"

fun scan_holding :: "scan_worker_pc \<Rightarrow> go_int multiset" where
  "scan_holding (SW_Scan port) = {#port#}"
| "scan_holding (SW_Send r) = {#Port r#}"
| "scan_holding _ = {#}"

fun scan_alive :: "scan_worker_pc \<Rightarrow> int" where
  "scan_alive SW_Exited = 0"
| "scan_alive _ = 1"

fun scan_leaving :: "scan_worker_pc \<Rightarrow> bool" where
  "scan_leaving SW_Done = True"
| "scan_leaving SW_Exited = True"
| "scan_leaving _ = False"

fun collected :: "main_pc \<Rightarrow> ScanResult list" where
  "collected (M_Collect acc) = acc"
| "collected (M_Returned rs) = rs"

definition ports_accounted :: "go_int list \<Rightarrow> scan \<Rightarrow> bool" where
  "ports_accounted ports s =
     (mset ports =
        mset (unsent (sender s)) + mset (buf (jobs_ch s))
        + sum_list (map scan_holding (scan_pool s))
        + mset (map Port (buf (results_ch s))) + mset (map Port (collected (main s))))"

definition specific_shape :: "go_int list \<Rightarrow> scan \<Rightarrow> bool" where
  "specific_shape ports s =
     (cap (jobs_ch s) = length ports \<and> cap (results_ch s) = length ports
      \<and> scan_pool s \<noteq> [] \<and> list_sender (sender s)
      \<and> closed (jobs_ch s) = (sender s = S_Exited)
      \<and> closed (results_ch s) = (closer s = CL_Exited)
      \<and> scan_wg s = sum_list (map scan_alive (scan_pool s)))"

definition specific_order :: "scan \<Rightarrow> bool" where
  "specific_order s =
     ((\<forall>p \<in> set (scan_pool s). scan_leaving p \<longrightarrow> closed (jobs_ch s) \<and> buf (jobs_ch s) = [])
      \<and> (closer s \<noteq> CL_Wait \<longrightarrow> scan_wg s = 0)
      \<and> (\<forall>rs. main s = M_Returned rs \<longrightarrow>
            closer s = CL_Exited \<and> buf (results_ch s) = []
            \<and> sorted (map (\<lambda>r. sint (Port r)) rs)))"

definition specific_inv :: "go_int list \<Rightarrow> scan \<Rightarrow> bool" where
  "specific_inv ports s = (specific_shape ports s \<and> ports_accounted ports s \<and> specific_order s)"

text \<open>
  The number of steps that the goroutines of a scan have left: every step of every
  goroutine takes one off.
\<close>

fun worker_weight :: "scan_worker_pc \<Rightarrow> nat" where
  "worker_weight SW_Recv = 2"
| "worker_weight (SW_Scan port) = 5"
| "worker_weight (SW_Send r) = 4"
| "worker_weight SW_Done = 1"
| "worker_weight SW_Exited = 0"

fun sender_weight :: "sender_pc \<Rightarrow> nat" where
  "sender_weight (S_Ports rest) = 5 * length rest + 1"
| "sender_weight _ = 0"

fun closer_weight :: "closer_pc \<Rightarrow> nat" where
  "closer_weight CL_Wait = 2"
| "closer_weight CL_close = 1"
| "closer_weight CL_Exited = 0"

fun main_weight :: "main_pc \<Rightarrow> nat" where
  "main_weight (M_Collect acc) = 1"
| "main_weight (M_Returned rs) = 0"

definition steps_left :: "scan \<Rightarrow> nat" where
  "steps_left s =
     sender_weight (sender s) + 4 * length (buf (jobs_ch s))
     + sum_list (map worker_weight (scan_pool s)) + length (buf (results_ch s))
     + closer_weight (closer s) + main_weight (main s)"

text \<open>
  A run of \<open>ScanSpecificPorts\<close> on five ports with two workers, to the end: the
  sender sends the five ports and closes the jobs channel; worker 0 takes the first port
  and worker 1 the next three, which it completes before worker 0 has sent its result;
  worker 0 takes the last port; both leave; the closer closes the results channel; the
  caller collects five results and returns.
\<close>

definition five_ports_schedule :: "scan_action list" where
  "five_ports_schedule =
     [Sender, Sender, Sender, Sender, Sender, Sender,
      Scanner 0, Scanner 1, Scanner 1, Scanner 1, Scanner 1, Scanner 1, Scanner 1,
      Scanner 0, Scanner 1, Scanner 1, Scanner 1, Scanner 0, Scanner 0, Scanner 0, Scanner 0,
      Scanner 0, Scanner 1, Scanner 0, Scanner 1,
      Closer, Closer, Main, Main, Main, Main, Main, Main]"

section \<open>Properties of the task executor\<close>

lemma spawn_workers_eq:
  "spawn_workers ids e =
     e\<lparr>pool := pool e @ replicate (length ids) W_Recv, wg := wg e + int (length ids)\<rparr>"
  by (induction ids arbitrary: e) (simp_all add: replicate_app_Cons_same)

lemma range_int_1: "range_int 1 = [0]"
  by (simp add: range_int_def)

lemma range_int_2: "range_int 2 = [0, 1]"
  by (simp add: range_int_def upt_rec)

lemmas executor_defs = run_program_def InitializeTaskExecutor_def make_chan_def
  client_call_def client_step_def worker_step_def chan_send_def chan_recv_def chan_close_def
  wg_Done_def wg_Wait_def GetResults_def

text \<open>
  C4, as the code has it: \<open>InitializeTaskExecutor\<close> never fails. For every
  \<open>workers\<close> it returns an executor with an open, empty queue of capacity 10, the
  counter at zero and no result; it has \<open>workers\<close> worker goroutines waiting on the
  queue when \<open>workers\<close> is positive and none when it is zero or negative, and the
  wait group counts them.
\<close>

theorem InitializeTaskExecutor_returns:
  "\<exists>e. (InitializeTaskExecutor n :: halt + 'r TaskExecutor) = Inr e
     \<and> pool e = replicate (nat n) W_Recv \<and> wg e = int (nat n) \<and> workers e = n
     \<and> jobs e = make_chan 10 \<and> jobcounter e = 0 \<and> results e = Map.empty"
  by (simp add: InitializeTaskExecutor_def spawn_workers_eq range_int_def)

text \<open>
  C4, as the spec states it, fails: a worker count of zero, or a negative one, gives
  an executor and no error.
\<close>

theorem InitializeTaskExecutor_nonpositive_counterexample:
  "\<not> isl (InitializeTaskExecutor 0 :: halt + int TaskExecutor)
   \<and> \<not> isl (InitializeTaskExecutor (- 3) :: halt + int TaskExecutor)"
  by (simp add: InitializeTaskExecutor_def)

subsection \<open>Runs\<close>

lemma run_append:
  "run (as @ bs) e = (case run as e of Inl h \<Rightarrow> Inl h | Inr e' \<Rightarrow> run bs e')"
  by (induction as arbitrary: e) (simp_all split: sum.splits)

lemma list_all_update: "list_all P xs \<Longrightarrow> P y \<Longrightarrow> list_all P (xs[w := y])"
  by (induction xs arbitrary: w) (auto split: nat.splits)

lemma list_all_nth: "list_all P xs \<Longrightarrow> w < length xs \<Longrightarrow> P (xs ! w)"
  by (simp add: list_all_length)

subsection \<open>The wait group counts the workers that have not left\<close>










lemma in_set_update: "p \<in> set (xs[w := y]) \<Longrightarrow> p = y \<or> p \<in> set xs"
  using set_update_subset_insert [of xs w y] by auto







lemma sum_ones_replicate: "sum_list (replicate n (1::int)) = int n"
  by (induction n) simp_all

lemma sum_empty_replicate: "sum_list (replicate n ({#} :: 'a multiset)) = {#}"
  by (induction n) simp_all


subsection \<open>The results map holds what the jobs returned\<close>











subsection \<open>Task identifiers and the results map\<close>

text \<open>
  C1 on the code. \<open>AddTask\<close> takes the identifier from \<open>jobcounter\<close>, the counter
  that the workers decrement when a task completes. With one worker, a client submits a
  task and lets it complete, submits a second one and lets it complete, calls
  \<open>Close\<close> and then \<open>BlockOn\<close>. Both tasks were given the identifier 0, and
  after \<open>BlockOn\<close> has returned \<open>GetResults\<close> holds one entry for the two tasks.
\<close>

theorem two_tasks_one_identifier:
  "(case run_program 1 (submit_and_complete 0 7 @ submit_and_complete 0 9 @ close_and_join 0) of
      Inl h \<Rightarrow> False
    | Inr e \<Rightarrow> clients e 0 = C_Idle \<and> pool e = [W_Exited]
        \<and> map task_id (stored e) = [0, 0]
        \<and> GetResults e = [0 \<mapsto> 9] \<and> dom (GetResults e) = {0})"
  by (simp add: submit_and_complete_def close_and_join_def executor_defs range_int_1)

text \<open>
  C8 on the code. After the first task has completed, the results map holds 7 under the
  identifier 0; the second task is given the same identifier, and when it completes the
  entry holds 9.
\<close>

theorem stored_result_overwritten:
  "(case run_program 1 (submit_and_complete 0 7) of
      Inl h \<Rightarrow> False
    | Inr e \<Rightarrow> results e 0 = Some 7 \<and>
        (case run (submit_and_complete 0 9) e of
           Inl h \<Rightarrow> False
         | Inr e' \<Rightarrow> results e' 0 = Some 9))"
  by (simp add: submit_and_complete_def executor_defs range_int_1)

subsection \<open>The counter\<close>

text \<open>
  C2 on the code. \<open>AddTask\<close> sends the task before it increments the counter, and a
  worker decrements with a load followed by a swap. First run: the worker completes the
  task between the send and the increment, and the counter is \<open>-1\<close>. Second run, two
  workers: each has loaded the counter, worker 0 swaps it to 0, \<open>Close\<close> reads 0,
  worker 1 swaps it to 1, and \<open>Close\<close> closes the queue with the counter at 1.
\<close>

theorem jobcounter_negative_and_close_while_positive:
  "(case run_program 1
       [Call 0 (AddTask (\<lambda>_. 7::int) []), Client 0, Client 0,
        Worker 0, Worker 0, Worker 0, Worker 0, Worker 0] of
      Inl h \<Rightarrow> False
    | Inr e \<Rightarrow> sint (jobcounter e) = - 1 \<and> \<not> closed (jobs e))
   \<and> (case run_program 2
       [Call 0 (AddTask (\<lambda>_. 7::int) []), Client 0, Client 0, Client 0,
        Worker 0, Worker 0, Worker 0, Worker 0,
        Call 0 (AddTask (\<lambda>_. 9::int) []), Client 0, Client 0, Client 0,
        Worker 1, Worker 1, Worker 1, Worker 1,
        Worker 0, Call 0 Close, Client 0, Worker 1] of
      Inl h \<Rightarrow> False
    | Inr e \<Rightarrow> clients e 0 = C_Close_close \<and> sint (jobcounter e) = 1 \<and> \<not> closed (jobs e)
        \<and> (case step (Client 0) e of
             Inl h \<Rightarrow> False
           | Inr e1 \<Rightarrow> closed (jobs e1) \<and> sint (jobcounter e1) = 1))"
  by (simp add: executor_defs range_int_1 range_int_2)

subsection \<open>Closing twice\<close>

lemma step_closed: "step a e = Inr e' \<Longrightarrow> closed (jobs e) \<Longrightarrow> closed (jobs e')"
  by (cases a)
    (auto simp: client_call_def client_step_def worker_step_def chan_send_def chan_recv_def
      chan_close_def wg_Done_def wg_Wait_def
      split: if_splits client_pc.splits worker_pc.splits list.splits)

lemma step_in_Close:
  "step a e = Inr e' \<Longrightarrow> closed (jobs e) \<Longrightarrow> in_Close (clients e i)
     \<Longrightarrow> in_Close (clients e' i)"
  by (cases a)
    (auto simp: client_call_def client_step_def worker_step_def chan_send_def chan_recv_def
      chan_close_def wg_Done_def wg_Wait_def
      split: if_splits client_pc.splits worker_pc.splits list.splits)

lemma run_in_Close:
  "run sched e = Inr e' \<Longrightarrow> closed (jobs e) \<Longrightarrow> in_Close (clients e i)
     \<Longrightarrow> closed (jobs e') \<and> in_Close (clients e' i)"
proof (induction sched arbitrary: e)
  case Nil
  then show ?case by simp
next
  case (Cons a sched)
  from Cons.prems(1) obtain e1 where s: "step a e = Inr e1" and r: "run sched e1 = Inr e'"
    by (auto split: sum.splits)
  from s Cons.prems(2,3) have "closed (jobs e1)" "in_Close (clients e1 i)"
    by (blast intro: step_closed step_in_Close)+
  with r show ?case by (rule Cons.IH)
qed

text \<open>
  C3, as the code has it: \<open>Close\<close> has no guard against a second call. A call of
  \<open>Close\<close> that starts when the queue is already closed never returns: whatever the
  other goroutines do, the caller stays inside \<open>Close\<close>, turning in its loop while
  the counter is not zero, and once it has read zero its \<open>close(jobs)\<close> is a close of
  the closed channel, on which the Go runtime panics.
\<close>

theorem Close_after_close_never_returns:
  assumes "closed (jobs e)" and "clients e i = C_Idle"
    and "run (Call i Close # sched) e = Inr e'"
  shows "closed (jobs e') \<and> in_Close (clients e' i)
     \<and> (clients e' i = C_Close_JobsDone \<and> jobcounter e' \<noteq> 0 \<longrightarrow> step (Client i) e' = Inr e')
     \<and> (clients e' i = C_Close_close \<longrightarrow>
          step (Client i) e' = Inl (Panicked CloseOfClosedChannel))"
proof -
  let ?e1 = "e\<lparr>clients := (clients e)(i := C_Close_JobsDone)\<rparr>"
  from assms(2,3) have r: "run sched ?e1 = Inr e'"
    by (simp add: client_call_def)
  from assms(1) have "closed (jobs ?e1)" "in_Close (clients ?e1 i)"
    by simp_all
  with r have c: "closed (jobs e') \<and> in_Close (clients e' i)"
    by (rule run_in_Close)
  then show ?thesis
    by (simp add: client_step_def chan_close_def)
qed

text \<open>
  The theorem after a first \<open>Close\<close> on a fresh executor: the second call reads the
  counter, zero, and stands before a \<open>close(jobs)\<close> that panics.
\<close>

theorem Close_after_close_never_returns_witness:
  "\<exists>(e :: int TaskExecutor) e'. run_program 1 [Call 0 Close, Client 0, Client 0] = Inr e
     \<and> closed (jobs e) \<and> clients e 0 = C_Idle
     \<and> run [Call 0 Close, Client 0] e = Inr e'
     \<and> closed (jobs e') \<and> clients e' 0 = C_Close_close
     \<and> step (Client 0) e' = Inl (Panicked CloseOfClosedChannel)"
proof -
  define e :: "int TaskExecutor" where
    "e = projr (run_program 1 [Call 0 Close, Client 0, Client 0])"
  have r: "run_program 1 [Call 0 Close, Client 0, Client 0] = Inr e"
    and c: "closed (jobs e)" and i: "clients e 0 = C_Idle"
    by (simp_all add: e_def executor_defs range_int_1)
  have "\<exists>e'. run [Call 0 Close, Client 0] e = Inr e' \<and> clients e' 0 = C_Close_close"
    by (simp add: e_def executor_defs range_int_1)
  then obtain e' where r': "run [Call 0 Close, Client 0] e = Inr e'"
    and c': "clients e' 0 = C_Close_close"
    by blast
  from Close_after_close_never_returns [OF c i r'] c' r c i r' show ?thesis
    by (intro exI [of _ e] exI [of _ e']) simp
qed

text \<open>
  C3, as the spec states it, fails: on a fresh executor a second \<open>Close\<close> is neither a
  no-op nor turned away; it closes the closed channel and the program panics.
\<close>

theorem Close_twice_counterexample:
  "run_program 1 [Call 0 Close, Client 0, Client 0, Call 0 Close, Client 0, Client 0]
     = (Inl (Panicked CloseOfClosedChannel) :: halt + int TaskExecutor)"
  by (simp add: executor_defs range_int_1)


section \<open>Properties of the port scanner\<close>

lemma spawn_scanners_eq:
  "spawn_scanners ids s =
     s\<lparr>scan_wg := scan_wg s + int (length ids),
       scan_pool := scan_pool s @ replicate (length ids) SW_Recv\<rparr>"
  by (induction ids arbitrary: s) (simp_all add: replicate_app_Cons_same)

lemmas scan_defs = ScanRange_def ScanSpecificPorts_def ScanRange_start_def
  ScanSpecificPorts_start_def makechan_def maxAlloc_def hchanSize_def make_chan_def scan_worker_step_def sender_step_def
  closer_step_def main_step_def chan_send_def chan_recv_def chan_close_def wg_Done_def
  wg_Wait_def NewPortScanner_def word_sless_alt word_sle_eq spawn_scanners_eq

lemmas ScanPort_defs = ScanPort_def DialTimeout_def fmt_d_def digits.simps commonPorts_at_def
  commonPorts_def

subsection \<open>ScanPort\<close>

lemma distinct_commonPorts: "distinct (map fst commonPorts)"
  by (simp add: commonPorts_def)

text \<open>
  C5: for every network, scanner (host and timeout) and port, \<open>ScanPort\<close> returns a
  result for that port whose \<open>Open\<close> is true exactly when the dial to
  \<open>host:port\<close> succeeds within the timeout; after a successful dial it closes the
  connection at once; after a failed dial it returns \<open>Open = false\<close> and touches no
  connection, and it has no error to return. \<open>Service\<close> is the name the table
  \<open>commonPorts\<close> gives the port, and the empty string for a port that is not in it.
\<close>

theorem ScanPort_result:
  "ScanPort net ps port log = (r, log') \<Longrightarrow>
     Port r = port
     \<and> Open r = net ''tcp'' (host ps @ '':'' @ fmt_d (sint port)) (timeout ps)
     \<and> (Open r \<longrightarrow> log' = log @ [Opened (length log) (host ps @ '':'' @ fmt_d (sint port)),
                                Closed (length log)])
     \<and> (\<not> Open r \<longrightarrow> log' = log)
     \<and> (\<forall>name. (port, name) \<in> set commonPorts \<longrightarrow> Service r = name)
     \<and> (port \<notin> fst ` set commonPorts \<longrightarrow> Service r = [])"
proof -
  assume a: "ScanPort net ps port log = (r, log')"
  have t: "Service r = commonPorts_at port"
    using a by (auto simp: ScanPort_def DialTimeout_def Let_def split: if_splits)
  have "Service r = name" if "(port, name) \<in> set commonPorts" for name
    using that t distinct_commonPorts by (simp add: commonPorts_at_def)
  moreover have "Service r = []" if "port \<notin> fst ` set commonPorts"
    using that t by (simp add: commonPorts_at_def map_of_eq_None_iff [THEN iffD2])
  moreover have "Port r = port"
    "Open r = net ''tcp'' (host ps @ '':'' @ fmt_d (sint port)) (timeout ps)"
    "Open r \<longrightarrow> log' = log @ [Opened (length log) (host ps @ '':'' @ fmt_d (sint port)),
                                Closed (length log)]"
    "\<not> Open r \<longrightarrow> log' = log"
    using a by (auto simp: ScanPort_def DialTimeout_def Let_def split: if_splits)
  ultimately show ?thesis by blast
qed

text \<open>
  The theorem at port 22, which answers and is in the table, and at port 8080, which
  does not answer and is not in the table.
\<close>

theorem ScanPort_result_witness:
  "ScanPort only_ssh (NewPortScanner ''localhost'' 500000000 100) 22 []
      = (\<lparr>Port = 22, Open = True, Service = ''SSH''\<rparr>, [Opened 0 ''localhost:22'', Closed 0])
   \<and> ScanPort only_ssh (NewPortScanner ''localhost'' 500000000 100) 8080 []
      = (\<lparr>Port = 8080, Open = False, Service = []\<rparr>, [])"
proof -
  let ?ps = "NewPortScanner ''localhost'' 500000000 100"
  obtain r l where a: "ScanPort only_ssh ?ps 22 [] = (r, l)"
    by (cases "ScanPort only_ssh ?ps 22 []")
  obtain r' l' where b: "ScanPort only_ssh ?ps 8080 [] = (r', l')"
    by (cases "ScanPort only_ssh ?ps 8080 []")
  have "r = \<lparr>Port = 22, Open = True, Service = ''SSH''\<rparr>" "l = [Opened 0 ''localhost:22'', Closed 0]"
    using ScanPort_result [OF a]
    by (auto simp: only_ssh_def NewPortScanner_def fmt_d_def digits.simps commonPorts_def)
  moreover have "r' = \<lparr>Port = 8080, Open = False, Service = []\<rparr>" "l' = []"
    using ScanPort_result [OF b]
    by (auto simp: only_ssh_def NewPortScanner_def fmt_d_def digits.simps commonPorts_def)
  ultimately show ?thesis using a b by simp
qed

subsection \<open>ScanRange: the capacity\<close>

lemma sint_range_capacity:
  fixes startPort endPort :: go_int
  assumes "- (2 ^ 63) \<le> sint endPort - sint startPort + 1"
    and "sint endPort - sint startPort + 1 < 2 ^ 63"
  shows "sint (endPort - startPort + 1) = sint endPort - sint startPort + 1"
proof -
  have "endPort - startPort + 1 = word_of_int (sint endPort - sint startPort + 1)"
    by simp
  then have "sint (endPort - startPort + 1)
      = signed_take_bit 63 (sint endPort - sint startPort + 1)"
    by (simp only: sint_sbintrunc') simp
  also from assms have "\<dots> = sint endPort - sint startPort + 1"
    by (intro signed_take_bit_int_eq_self) simp_all
  finally show ?thesis .
qed

lemma ScanRange_capacity_negative:
  assumes "sint endPort + 1 < sint startPort"
    and "- (2 ^ 63) \<le> sint endPort - sint startPort + 1"
  shows "ScanRange net ps startPort endPort sched = Inl (Panicked MakechanSizeOutOfRange)"
proof -
  from assms have "sint (endPort - startPort + 1) = sint endPort - sint startPort + 1"
    by (intro sint_range_capacity) simp_all
  with assms(1) have "word_sless (endPort - startPort + 1) 0"
    by (simp add: word_sless_alt)
  then show ?thesis
    by (simp add: ScanRange_def ScanRange_start_def makechan_def)
qed

text \<open>
  C10: for every pair of ports with \<open>startPort > endPort + 1\<close>, \<open>ScanRange\<close>
  panics, under every schedule and before any goroutine has run: the capacity
  \<open>endPort - startPort + 1\<close> of its first \<open>make\<close> is negative. A port is not a
  negative number; that \<open>endPort\<close> is not negative is all the proof uses
  (\<open>startPort\<close> is then above 1).
\<close>

theorem ScanRange_negative_capacity_panics:
  assumes "0 \<le> sint endPort" and "sint endPort + 1 < sint startPort"
  shows "ScanRange net ps startPort endPort sched = Inl (Panicked MakechanSizeOutOfRange)"
proof -
  have "sint startPort < 2 ^ 63"
    using sint_lt [of startPort] by simp
  with assms(1) have "- (2 ^ 63) \<le> sint endPort - sint startPort + 1"
    by simp
  with assms(2) show ?thesis
    by (rule ScanRange_capacity_negative)
qed

text \<open>The theorem at \<open>ScanRange(5, 3)\<close> and at \<open>ScanRange(65535, 0)\<close>.\<close>

theorem ScanRange_negative_capacity_panics_witness:
  "0 \<le> sint (3 :: go_int) \<and> sint (3 :: go_int) + 1 < sint (5 :: go_int)
   \<and> ScanRange (\<lambda>_ _ _. False) (NewPortScanner ''localhost'' 500000000 100) 5 3 [Sender, Main]
       = Inl (Panicked MakechanSizeOutOfRange)
   \<and> ScanRange (\<lambda>_ _ _. False) (NewPortScanner ''localhost'' 500000000 100) 65535 0 []
       = Inl (Panicked MakechanSizeOutOfRange)"
  using ScanRange_negative_capacity_panics [of 3 5 "\<lambda>_ _ _. False"
      "NewPortScanner ''localhost'' 500000000 100" "[Sender, Main]"]
    ScanRange_negative_capacity_panics [of 0 65535 "\<lambda>_ _ _. False"
      "NewPortScanner ''localhost'' 500000000 100" "[]"]
  by simp

subsection \<open>ScanRange: the jobs channel is never closed\<close>

lemma range_waiting_worker:
  assumes "range_waiting s"
  shows "scan_worker_step net w s \<noteq> Inl (Panicked p)"
    and "scan_worker_step net w s = Inr s' \<Longrightarrow> range_waiting s'"
proof -
  show "scan_worker_step net w s \<noteq> Inl (Panicked p)"
  proof (cases "w < length (scan_pool s)")
    case True
    with assms have "scanning (scan_pool s ! w)"
      by (simp add: range_waiting_def list_all_nth)
    with assms True show ?thesis
      by (cases "scan_pool s ! w")
        (auto simp: scan_worker_step_def range_waiting_def chan_recv_def chan_send_def
          split: list.splits prod.splits)
  next
    case False
    then show ?thesis by (simp add: scan_worker_step_def)
  qed
next
  assume a: "scan_worker_step net w s = Inr s'"
  then have w: "w < length (scan_pool s)"
    by (auto simp: scan_worker_step_def split: if_splits)
  with assms have c: "scanning (scan_pool s ! w)" and l: "list_all scanning (scan_pool s)"
    by (simp_all add: range_waiting_def list_all_nth)
  from a w c assms show "range_waiting s'"
    by (cases "scan_pool s ! w")
      (auto simp: scan_worker_step_def range_waiting_def chan_recv_def chan_send_def
        list_all_update
        split: list.splits prod.splits if_splits)
qed

lemma range_waiting_sender:
  assumes "range_waiting s"
  shows "sender_step s \<noteq> Inl (Panicked p)"
    and "sender_step s = Inr s' \<Longrightarrow> range_waiting s'"
proof -
  show "sender_step s \<noteq> Inl (Panicked p)"
    using assms
    by (cases "sender s")
      (auto simp: sender_step_def range_waiting_def chan_send_def split: if_splits)
  show "range_waiting s'" if "sender_step s = Inr s'"
    using assms that
    by (cases "sender s")
      (auto simp: sender_step_def range_waiting_def chan_send_def split: if_splits)
qed

lemma range_waiting_closer:
  assumes "range_waiting s"
  shows "closer_step s = Inl Blocked"
  using assms
  by (auto simp: closer_step_def range_waiting_def wg_Wait_def neq_Nil_conv)

lemma range_waiting_main:
  assumes "range_waiting s"
  shows "main_step s \<noteq> Inl (Panicked p)"
    and "main_step s = Inr s' \<Longrightarrow> range_waiting s'"
proof -
  from assms obtain acc where m: "main s = M_Collect acc"
    by (cases "main s") (simp_all add: range_waiting_def)
  from assms have o: "\<not> closed (results_ch s)"
    by (simp add: range_waiting_def)
  show "main_step s \<noteq> Inl (Panicked p)"
    using m o by (cases "buf (results_ch s)") (simp_all add: main_step_def chan_recv_def)
  show "range_waiting s'" if "main_step s = Inr s'"
  proof (cases "buf (results_ch s)")
    case Nil
    with m o that show ?thesis
      by (simp add: main_step_def chan_recv_def)
  next
    case (Cons r rs)
    with m that have "s' = s\<lparr>results_ch := (results_ch s)\<lparr>buf := rs\<rparr>,
        main := M_Collect (acc @ [r])\<rparr>"
      by (simp add: main_step_def chan_recv_def)
    with assms show ?thesis
      by (simp add: range_waiting_def)
  qed
qed

lemma range_waiting_step:
  assumes "range_waiting s"
  shows "scan_step net a s \<noteq> Inl (Panicked p)"
    and "scan_step net a s = Inr s' \<Longrightarrow> range_waiting s'"
proof -
  show "scan_step net a s \<noteq> Inl (Panicked p)"
  proof (cases a)
    case (Scanner w)
    then show ?thesis using range_waiting_worker(1) [OF assms, of net w p] by simp
  next
    case Sender
    then show ?thesis using range_waiting_sender(1) [OF assms, of p] by simp
  next
    case Closer
    then show ?thesis using range_waiting_closer [OF assms] by simp
  next
    case Main
    then show ?thesis using range_waiting_main(1) [OF assms, of p] by simp
  qed
  show "range_waiting s'" if "scan_step net a s = Inr s'"
  proof (cases a)
    case (Scanner w)
    then show ?thesis using range_waiting_worker(2) [OF assms, of net w s'] that by simp
  next
    case Sender
    then show ?thesis using range_waiting_sender(2) [OF assms, of s'] that by simp
  next
    case Closer
    then show ?thesis using range_waiting_closer [OF assms] that by simp
  next
    case Main
    then show ?thesis using range_waiting_main(2) [OF assms, of s'] that by simp
  qed
qed

lemma range_idle_worker:
  assumes "range_idle s"
  shows "scan_worker_step net w s = Inl Blocked"
  using assms by (simp add: scan_worker_step_def range_idle_def)

lemma range_idle_sender:
  assumes "range_idle s"
  shows "sender_step s \<noteq> Inl (Panicked p)"
    and "sender_step s = Inr s' \<Longrightarrow> range_idle s'"
proof -
  show "sender_step s \<noteq> Inl (Panicked p)"
    using assms
    by (cases "sender s")
      (auto simp: sender_step_def range_idle_def chan_send_def split: if_splits)
  show "range_idle s'" if "sender_step s = Inr s'"
    using assms that
    by (cases "sender s")
      (auto simp: sender_step_def range_idle_def chan_send_def split: if_splits)
qed

lemma range_idle_closer:
  assumes "range_idle s"
  shows "closer_step s \<noteq> Inl (Panicked p)"
    and "closer_step s = Inr s' \<Longrightarrow> range_idle s'"
proof -
  show "closer_step s \<noteq> Inl (Panicked p)"
    using assms
    by (cases "closer s")
      (auto simp: closer_step_def range_idle_def wg_Wait_def chan_close_def split: if_splits)
  show "range_idle s'" if "closer_step s = Inr s'"
    using assms that
    by (cases "closer s")
      (auto simp: closer_step_def range_idle_def wg_Wait_def chan_close_def split: if_splits)
qed

lemma range_idle_main:
  assumes "range_idle s"
  shows "main_step s \<noteq> Inl (Panicked p)"
    and "main_step s = Inr s' \<Longrightarrow> range_idle s'"
proof -
  show "main_step s \<noteq> Inl (Panicked p)"
    using assms
    by (cases "main s")
      (auto simp: main_step_def range_idle_def chan_recv_def split: if_splits)
  show "range_idle s'" if "main_step s = Inr s'"
    using assms that
    by (cases "main s")
      (auto simp: main_step_def range_idle_def chan_recv_def sort_by_Port_def
        split: if_splits)
qed

lemma range_idle_step:
  assumes "range_idle s"
  shows "scan_step net a s \<noteq> Inl (Panicked p)"
    and "scan_step net a s = Inr s' \<Longrightarrow> range_idle s'"
proof -
  show "scan_step net a s \<noteq> Inl (Panicked p)"
  proof (cases a)
    case (Scanner w)
    then show ?thesis using range_idle_worker [OF assms, of net w] by simp
  next
    case Sender
    then show ?thesis using range_idle_sender(1) [OF assms, of p] by simp
  next
    case Closer
    then show ?thesis using range_idle_closer(1) [OF assms, of p] by simp
  next
    case Main
    then show ?thesis using range_idle_main(1) [OF assms, of p] by simp
  qed
  show "range_idle s'" if "scan_step net a s = Inr s'"
  proof (cases a)
    case (Scanner w)
    then show ?thesis using range_idle_worker [OF assms, of net w] that by simp
  next
    case Sender
    then show ?thesis using range_idle_sender(2) [OF assms, of s'] that by simp
  next
    case Closer
    then show ?thesis using range_idle_closer(2) [OF assms, of s'] that by simp
  next
    case Main
    then show ?thesis using range_idle_main(2) [OF assms, of s'] that by simp
  qed
qed

lemma range_waiting_run:
  "range_waiting s \<Longrightarrow>
     scan_run net sched s \<noteq> Inl (Panicked p)
     \<and> (\<forall>s'. scan_run net sched s = Inr s' \<longrightarrow> range_waiting s')"
proof (induction sched arbitrary: s)
  case Nil
  then show ?case by simp
next
  case (Cons a sched)
  show ?case
  proof (cases "scan_step net a s")
    case (Inl h)
    with range_waiting_step(1) [OF Cons.prems, of net a p] show ?thesis by auto
  next
    case (Inr s1)
    with range_waiting_step(2) [OF Cons.prems, of net a s1] Cons.IH [of s1] show ?thesis
      by simp
  qed
qed

lemma range_idle_run:
  "range_idle s \<Longrightarrow>
     scan_run net sched s \<noteq> Inl (Panicked p)
     \<and> (\<forall>s'. scan_run net sched s = Inr s' \<longrightarrow> range_idle s')"
proof (induction sched arbitrary: s)
  case Nil
  then show ?case by simp
next
  case (Cons a sched)
  show ?case
  proof (cases "scan_step net a s")
    case (Inl h)
    with range_idle_step(1) [OF Cons.prems, of net a p] show ?thesis by auto
  next
    case (Inr s1)
    with range_idle_step(2) [OF Cons.prems, of net a s1] Cons.IH [of s1] show ?thesis
      by simp
  qed
qed

lemma ScanRange_start_inv:
  assumes "ScanRange_start ps startPort endPort = Inr s"
  shows "0 < scan_workers ps \<Longrightarrow> range_waiting s"
    and "scan_workers ps \<le> 0 \<Longrightarrow> range_idle s"
  using assms
  by (auto simp: ScanRange_start_def makechan_def make_chan_def spawn_scanners_eq range_int_def
      range_waiting_def range_idle_def list_all_length
      split: if_splits)

text \<open>
  C6 on the code. The sender of \<open>ScanRange\<close> never closes the jobs channel (the
  senders of \<open>scanCommonPorts\<close> and \<open>ScanSpecificPorts\<close> do). So for every range,
  network and schedule: with at least one worker, \<open>ScanRange\<close> has not returned, in
  whatever state the run has reached; with no worker it has not returned or has returned
  the empty slice. \<open>ScanRange(1, 1024)\<close> never returns 1024 results.
\<close>

theorem ScanRange_returns_nothing:
  assumes "ScanRange net ps startPort endPort sched = Inr s"
  shows "(0 < scan_workers ps \<longrightarrow> returned (main s) = None)
     \<and> (scan_workers ps \<le> 0 \<longrightarrow> returned (main s) = None \<or> returned (main s) = Some [])"
proof -
  from assms obtain s0 where i: "ScanRange_start ps startPort endPort = Inr s0"
    and r: "scan_run net sched s0 = Inr s"
    by (auto simp: ScanRange_def split: sum.splits)
  have "returned (main s) = None" if "0 < scan_workers ps"
    using range_waiting_run [OF ScanRange_start_inv(1) [OF i that], of net sched] r
    by (simp add: range_waiting_def)
  moreover have "returned (main s) = None \<or> returned (main s) = Some []" if "scan_workers ps \<le> 0"
    using range_idle_run [OF ScanRange_start_inv(2) [OF i that], of net sched] r
    by (auto simp: range_idle_def)
  ultimately show ?thesis by blast
qed


text \<open>
  The theorem at \<open>ScanRange(1, 1024)\<close>: with one worker, after the first port has been
  sent, scanned and collected; and with no worker, after the closer has closed the
  results channel and the caller has returned.
\<close>

theorem ScanRange_returns_nothing_witness:
  "(\<exists>s. ScanRange (\<lambda>_ _ _. False) (NewPortScanner ''localhost'' 500000000 1) 1 1024
         [Sender, Scanner 0, Scanner 0, Scanner 0, Main] = Inr s
       \<and> collected (main s) = [\<lparr>Port = 1, Open = False, Service = []\<rparr>]
       \<and> returned (main s) = None)
   \<and> (\<exists>s. ScanRange (\<lambda>_ _ _. False) (NewPortScanner ''localhost'' 500000000 0) 1 1024
         [Closer, Closer, Main] = Inr s
       \<and> returned (main s) = Some [])"
proof -
  let ?net = "\<lambda>_ _ _. False"
  have "\<exists>s. ScanRange ?net (NewPortScanner ''localhost'' 500000000 1) 1 1024
         [Sender, Scanner 0, Scanner 0, Scanner 0, Main] = Inr s
       \<and> collected (main s) = [\<lparr>Port = 1, Open = False, Service = []\<rparr>]"
    by (simp add: scan_defs ScanPort_defs range_int_1)
  then obtain s where a: "ScanRange ?net (NewPortScanner ''localhost'' 500000000 1) 1 1024
         [Sender, Scanner 0, Scanner 0, Scanner 0, Main] = Inr s"
    and c: "collected (main s) = [\<lparr>Port = 1, Open = False, Service = []\<rparr>]"
    by blast
  have "\<exists>s. ScanRange ?net (NewPortScanner ''localhost'' 500000000 0) 1 1024
         [Closer, Closer, Main] = Inr s \<and> returned (main s) \<noteq> None"
    by (simp add: scan_defs sort_by_Port_def range_int_def)
  then obtain s' where b: "ScanRange ?net (NewPortScanner ''localhost'' 500000000 0) 1 1024
         [Closer, Closer, Main] = Inr s'"
    and d: "returned (main s') \<noteq> None"
    by blast
  from ScanRange_returns_nothing [OF a] have "returned (main s) = None"
    by (simp add: NewPortScanner_def)
  moreover from ScanRange_returns_nothing [OF b] d have "returned (main s') = Some []"
    by (simp add: NewPortScanner_def)
  ultimately show ?thesis using a b c by blast
qed

subsection \<open>ScanSpecificPorts: what a step is\<close>

lemma scan_worker_step_cases [consumes 1, case_names Recv Closed Scan Send Done]:
  assumes "scan_worker_step net w s = Inr s'"
  obtains
    (Recv) port rest where "w < length (scan_pool s)" "scan_pool s ! w = SW_Recv"
      "buf (jobs_ch s) = port # rest"
      "s' = s\<lparr>jobs_ch := (jobs_ch s)\<lparr>buf := rest\<rparr>,
             scan_pool := (scan_pool s)[w := SW_Scan port]\<rparr>"
  | (Closed) "w < length (scan_pool s)" "scan_pool s ! w = SW_Recv"
      "buf (jobs_ch s) = []" "closed (jobs_ch s)"
      "s' = s\<lparr>scan_pool := (scan_pool s)[w := SW_Done]\<rparr>"
  | (Scan) port r log where "w < length (scan_pool s)" "scan_pool s ! w = SW_Scan port"
      "ScanPort net (scanner s) port (netlog s) = (r, log)"
      "s' = s\<lparr>scan_pool := (scan_pool s)[w := SW_Send r], netlog := log\<rparr>"
  | (Send) r where "w < length (scan_pool s)" "scan_pool s ! w = SW_Send r"
      "\<not> closed (results_ch s)"
      "s' = s\<lparr>results_ch := (results_ch s)\<lparr>buf := buf (results_ch s) @ [r]\<rparr>,
             scan_pool := (scan_pool s)[w := SW_Recv]\<rparr>"
  | (Done) "w < length (scan_pool s)" "scan_pool s ! w = SW_Done" "1 \<le> scan_wg s"
      "s' = s\<lparr>scan_wg := scan_wg s - 1, scan_pool := (scan_pool s)[w := SW_Exited]\<rparr>"
proof -
  from assms have w: "w < length (scan_pool s)"
    by (auto simp: scan_worker_step_def split: if_splits)
  show thesis
  proof (cases "scan_pool s ! w")
    case SW_Recv
    show ?thesis
    proof (cases "buf (jobs_ch s)")
      case Nil
      with assms w SW_Recv show ?thesis
        by (intro Closed) (auto simp: scan_worker_step_def chan_recv_def split: if_splits)
    next
      case (Cons port rest)
      with assms w SW_Recv show ?thesis
        by (intro Recv [of port rest]) (auto simp: scan_worker_step_def chan_recv_def)
    qed
  next
    case (SW_Scan port)
    obtain r log where "ScanPort net (scanner s) port (netlog s) = (r, log)"
      by (cases "ScanPort net (scanner s) port (netlog s)")
    with assms w SW_Scan show ?thesis
      by (intro Scan [of port r log]) (auto simp: scan_worker_step_def)
  next
    case (SW_Send r)
    with assms w show ?thesis
      by (intro Send [of r])
        (auto simp: scan_worker_step_def chan_send_def split: if_splits)
  next
    case SW_Done
    with assms w show ?thesis
      by (intro Done) (auto simp: scan_worker_step_def wg_Done_def split: if_splits)
  next
    case SW_Exited
    with assms w show ?thesis
      by (simp add: scan_worker_step_def)
  qed
qed

lemma sender_step_cases [consumes 1, case_names Range Send Close]:
  assumes "sender_step s = Inr s'"
  obtains
    (Range) port endPort where "sender s = S_Range port endPort"
  | (Send) port rest where "sender s = S_Ports (port # rest)" "\<not> closed (jobs_ch s)"
      "s' = s\<lparr>jobs_ch := (jobs_ch s)\<lparr>buf := buf (jobs_ch s) @ [port]\<rparr>,
             sender := S_Ports rest\<rparr>"
  | (Close) "sender s = S_Ports []" "\<not> closed (jobs_ch s)"
      "s' = s\<lparr>jobs_ch := (jobs_ch s)\<lparr>closed := True\<rparr>, sender := S_Exited\<rparr>"
proof (cases "sender s")
  case (S_Range port endPort)
  then show ?thesis by (rule Range)
next
  case (S_Ports ports)
  show ?thesis
  proof (cases ports)
    case Nil
    with assms S_Ports show ?thesis
      by (intro Close) (auto simp: sender_step_def chan_close_def split: if_splits)
  next
    case (Cons port rest)
    with assms S_Ports show ?thesis
      by (intro Send [of port rest]) (auto simp: sender_step_def chan_send_def split: if_splits)
  qed
next
  case S_Exited
  with assms show ?thesis by (simp add: sender_step_def)
qed

lemma closer_step_cases [consumes 1, case_names Wait Close]:
  assumes "closer_step s = Inr s'"
  obtains
    (Wait) "closer s = CL_Wait" "scan_wg s = 0" "s' = s\<lparr>closer := CL_close\<rparr>"
  | (Close) "closer s = CL_close" "\<not> closed (results_ch s)"
      "s' = s\<lparr>results_ch := (results_ch s)\<lparr>closed := True\<rparr>, closer := CL_Exited\<rparr>"
  using assms
  by (cases "closer s")
    (auto simp: closer_step_def wg_Wait_def chan_close_def split: if_splits)

lemma main_step_cases [consumes 1, case_names Collect Return]:
  assumes "main_step s = Inr s'"
  obtains
    (Collect) acc r rest where "main s = M_Collect acc" "buf (results_ch s) = r # rest"
      "s' = s\<lparr>results_ch := (results_ch s)\<lparr>buf := rest\<rparr>, main := M_Collect (acc @ [r])\<rparr>"
  | (Return) acc where "main s = M_Collect acc" "buf (results_ch s) = []"
      "closed (results_ch s)" "s' = s\<lparr>main := M_Returned (sort_by_Port acc)\<rparr>"
proof (cases "main s")
  case (M_Collect acc)
  show ?thesis
  proof (cases "buf (results_ch s)")
    case Nil
    with assms M_Collect show ?thesis
      by (intro Return [of acc]) (auto simp: main_step_def chan_recv_def split: if_splits)
  next
    case (Cons r rest)
    with assms M_Collect show ?thesis
      by (intro Collect [of acc r rest]) (auto simp: main_step_def chan_recv_def)
  qed
next
  case (M_Returned rs)
  with assms show ?thesis by (simp add: main_step_def)
qed

subsection \<open>Sums over the pool\<close>

lemma sum_list_update_add:
  fixes f :: "'a \<Rightarrow> 'b::comm_monoid_add"
  shows "w < length xs \<Longrightarrow>
    sum_list (map f (xs[w := y])) + f (xs ! w) = sum_list (map f xs) + f y"
  by (induction xs arbitrary: w) (auto split: nat.splits simp: ac_simps)

lemma ScanPort_Port: "ScanPort net ps port log = (r, log') \<Longrightarrow> Port r = port"
  by (auto simp: ScanPort_def DialTimeout_def Let_def split: if_splits)

subsection \<open>The invariant of ScanSpecificPorts\<close>

lemma worker_shape:
  assumes "scan_worker_step net w s = Inr s'" and "specific_shape ports s"
  shows "specific_shape ports s'"
  using assms
proof (cases rule: scan_worker_step_cases)
  case (Recv port rest)
  with assms(2) sum_list_update_add [of w "scan_pool s" scan_alive "SW_Scan port"]
  show ?thesis by (simp add: specific_shape_def)
next
  case Closed
  with assms(2) sum_list_update_add [of w "scan_pool s" scan_alive "SW_Done"]
  show ?thesis by (simp add: specific_shape_def)
next
  case (Scan port r log)
  with assms(2) sum_list_update_add [of w "scan_pool s" scan_alive "SW_Send r"]
  show ?thesis by (simp add: specific_shape_def)
next
  case (Send r)
  with assms(2) sum_list_update_add [of w "scan_pool s" scan_alive "SW_Recv"]
  show ?thesis by (simp add: specific_shape_def)
next
  case Done
  with assms(2) sum_list_update_add [of w "scan_pool s" scan_alive "SW_Exited"]
  show ?thesis by (simp add: specific_shape_def)
qed

lemma worker_accounted:
  assumes "scan_worker_step net w s = Inr s'" and "ports_accounted ports s"
  shows "ports_accounted ports s'"
  using assms
proof (cases rule: scan_worker_step_cases)
  case (Recv port rest)
  with assms(2) sum_list_update_add [of w "scan_pool s" scan_holding "SW_Scan port"]
  show ?thesis by (simp add: ports_accounted_def)
next
  case Closed
  with assms(2) sum_list_update_add [of w "scan_pool s" scan_holding "SW_Done"]
  show ?thesis by (simp add: ports_accounted_def)
next
  case (Scan port r log)
  with assms(2) sum_list_update_add [of w "scan_pool s" scan_holding "SW_Send r"]
    ScanPort_Port [of net "scanner s" port "netlog s" r log]
  show ?thesis by (simp add: ports_accounted_def)
next
  case (Send r)
  with assms(2) sum_list_update_add [of w "scan_pool s" scan_holding "SW_Recv"]
  show ?thesis by (simp add: ports_accounted_def)
next
  case Done
  with assms(2) sum_list_update_add [of w "scan_pool s" scan_holding "SW_Exited"]
  show ?thesis by (simp add: ports_accounted_def)
qed

lemma order_leavingD:
  "specific_order s \<Longrightarrow> p \<in> set (scan_pool s) \<Longrightarrow> scan_leaving p
     \<Longrightarrow> closed (jobs_ch s) \<and> buf (jobs_ch s) = []"
  unfolding specific_order_def by blast

lemma order_closerD: "specific_order s \<Longrightarrow> closer s \<noteq> CL_Wait \<Longrightarrow> scan_wg s = 0"
  unfolding specific_order_def by blast

lemma order_mainD:
  "specific_order s \<Longrightarrow> main s = M_Returned rs
     \<Longrightarrow> closer s = CL_Exited \<and> buf (results_ch s) = [] \<and> sorted (map (\<lambda>r. sint (Port r)) rs)"
  unfolding specific_order_def by blast

lemma specific_orderI:
  assumes "\<And>p. p \<in> set (scan_pool s) \<Longrightarrow> scan_leaving p
      \<Longrightarrow> closed (jobs_ch s) \<and> buf (jobs_ch s) = []"
    and "closer s \<noteq> CL_Wait \<Longrightarrow> scan_wg s = 0"
    and "\<And>rs. main s = M_Returned rs
      \<Longrightarrow> closer s = CL_Exited \<and> buf (results_ch s) = [] \<and> sorted (map (\<lambda>r. sint (Port r)) rs)"
  shows "specific_order s"
  unfolding specific_order_def using assms by blast

lemma worker_order:
  assumes "scan_worker_step net w s = Inr s'" and "specific_shape ports s"
    and "specific_order s"
  shows "specific_order s'"
  using assms(1)
proof (cases rule: scan_worker_step_cases)
  case (Recv port rest)
  show ?thesis
  proof (rule specific_orderI)
    fix p assume "p \<in> set (scan_pool s')" "scan_leaving p"
    with Recv have "p \<in> set (scan_pool s)"
      by (auto dest: in_set_update)
    with order_leavingD [OF assms(3) _ \<open>scan_leaving p\<close>] Recv
    show "closed (jobs_ch s') \<and> buf (jobs_ch s') = []" by simp
  next
    assume "closer s' \<noteq> CL_Wait"
    with Recv order_closerD [OF assms(3)] show "scan_wg s' = 0" by simp
  next
    fix rs assume "main s' = M_Returned rs"
    with Recv order_mainD [OF assms(3), of rs]
    show "closer s' = CL_Exited \<and> buf (results_ch s') = []
        \<and> sorted (map (\<lambda>r. sint (Port r)) rs)" by simp
  qed
next
  case Closed
  show ?thesis
  proof (rule specific_orderI)
    fix p assume "p \<in> set (scan_pool s')" "scan_leaving p"
    with Closed show "closed (jobs_ch s') \<and> buf (jobs_ch s') = []" by simp
  next
    assume "closer s' \<noteq> CL_Wait"
    with Closed order_closerD [OF assms(3)] show "scan_wg s' = 0" by simp
  next
    fix rs assume "main s' = M_Returned rs"
    with Closed order_mainD [OF assms(3), of rs]
    show "closer s' = CL_Exited \<and> buf (results_ch s') = []
        \<and> sorted (map (\<lambda>r. sint (Port r)) rs)" by simp
  qed
next
  case (Scan port r log)
  show ?thesis
  proof (rule specific_orderI)
    fix p assume "p \<in> set (scan_pool s')" "scan_leaving p"
    with Scan have "p \<in> set (scan_pool s)"
      by (auto dest: in_set_update)
    with order_leavingD [OF assms(3) _ \<open>scan_leaving p\<close>] Scan
    show "closed (jobs_ch s') \<and> buf (jobs_ch s') = []" by simp
  next
    assume "closer s' \<noteq> CL_Wait"
    with Scan order_closerD [OF assms(3)] show "scan_wg s' = 0" by simp
  next
    fix rs assume "main s' = M_Returned rs"
    with Scan order_mainD [OF assms(3), of rs]
    show "closer s' = CL_Exited \<and> buf (results_ch s') = []
        \<and> sorted (map (\<lambda>r. sint (Port r)) rs)" by simp
  qed
next
  case (Send r)
  show ?thesis
  proof (rule specific_orderI)
    fix p assume "p \<in> set (scan_pool s')" "scan_leaving p"
    with Send have "p \<in> set (scan_pool s)"
      by (auto dest: in_set_update)
    with order_leavingD [OF assms(3) _ \<open>scan_leaving p\<close>] Send
    show "closed (jobs_ch s') \<and> buf (jobs_ch s') = []" by simp
  next
    assume "closer s' \<noteq> CL_Wait"
    with Send order_closerD [OF assms(3)] show "scan_wg s' = 0" by simp
  next
    fix rs assume "main s' = M_Returned rs"
    with Send order_mainD [OF assms(3), of rs] assms(2)
    show "closer s' = CL_Exited \<and> buf (results_ch s') = []
        \<and> sorted (map (\<lambda>r. sint (Port r)) rs)"
      by (simp add: specific_shape_def)
  qed
next
  case Done
  from Done(1,2) have m: "SW_Done \<in> set (scan_pool s)"
    by (metis nth_mem)
  show ?thesis
  proof (rule specific_orderI)
    fix p assume "p \<in> set (scan_pool s')" "scan_leaving p"
    from Done order_leavingD [OF assms(3) m]
    show "closed (jobs_ch s') \<and> buf (jobs_ch s') = []" by simp
  next
    assume "closer s' \<noteq> CL_Wait"
    with Done order_closerD [OF assms(3)] show "scan_wg s' = 0" by simp
  next
    fix rs assume "main s' = M_Returned rs"
    with Done order_mainD [OF assms(3), of rs]
    show "closer s' = CL_Exited \<and> buf (results_ch s') = []
        \<and> sorted (map (\<lambda>r. sint (Port r)) rs)" by simp
  qed
qed

lemma worker_inv:
  "scan_worker_step net w s = Inr s' \<Longrightarrow> specific_inv ports s \<Longrightarrow> specific_inv ports s'"
  unfolding specific_inv_def
  by (blast intro: worker_shape worker_accounted worker_order)

lemma sender_inv:
  assumes "sender_step s = Inr s'" and "specific_inv ports s"
  shows "specific_inv ports s'"
proof -
  from assms(2) have sh: "specific_shape ports s" and ac: "ports_accounted ports s"
    and od: "specific_order s"
    by (simp_all add: specific_inv_def)
  from assms(1) show ?thesis
  proof (cases rule: sender_step_cases)
    case (Range port endPort)
    with sh show ?thesis by (simp add: specific_shape_def)
  next
    case (Send port rest)
    have "specific_order s'"
    proof (rule specific_orderI)
      fix p assume "p \<in> set (scan_pool s')" "scan_leaving p"
      with Send order_leavingD [OF od, of p]
      show "closed (jobs_ch s') \<and> buf (jobs_ch s') = []" by simp
    next
      assume "closer s' \<noteq> CL_Wait"
      with Send order_closerD [OF od] show "scan_wg s' = 0" by simp
    next
      fix rs assume "main s' = M_Returned rs"
      with Send order_mainD [OF od, of rs]
      show "closer s' = CL_Exited \<and> buf (results_ch s') = []
          \<and> sorted (map (\<lambda>r. sint (Port r)) rs)" by simp
    qed
    moreover from Send sh have "specific_shape ports s'"
      by (simp add: specific_shape_def)
    moreover from Send ac have "ports_accounted ports s'"
      by (simp add: ports_accounted_def)
    ultimately show ?thesis by (simp add: specific_inv_def)
  next
    case Close
    have "specific_order s'"
    proof (rule specific_orderI)
      fix p assume "p \<in> set (scan_pool s')" "scan_leaving p"
      with Close order_leavingD [OF od, of p]
      show "closed (jobs_ch s') \<and> buf (jobs_ch s') = []" by simp
    next
      assume "closer s' \<noteq> CL_Wait"
      with Close order_closerD [OF od] show "scan_wg s' = 0" by simp
    next
      fix rs assume "main s' = M_Returned rs"
      with Close order_mainD [OF od, of rs]
      show "closer s' = CL_Exited \<and> buf (results_ch s') = []
          \<and> sorted (map (\<lambda>r. sint (Port r)) rs)" by simp
    qed
    moreover from Close sh have "specific_shape ports s'"
      by (simp add: specific_shape_def)
    moreover from Close ac have "ports_accounted ports s'"
      by (simp add: ports_accounted_def)
    ultimately show ?thesis by (simp add: specific_inv_def)
  qed
qed

lemma closer_inv:
  assumes "closer_step s = Inr s'" and "specific_inv ports s"
  shows "specific_inv ports s'"
proof -
  from assms(2) have sh: "specific_shape ports s" and ac: "ports_accounted ports s"
    and od: "specific_order s"
    by (simp_all add: specific_inv_def)
  from assms(1) show ?thesis
  proof (cases rule: closer_step_cases)
    case Wait
    have "specific_order s'"
    proof (rule specific_orderI)
      fix p assume "p \<in> set (scan_pool s')" "scan_leaving p"
      with Wait order_leavingD [OF od, of p]
      show "closed (jobs_ch s') \<and> buf (jobs_ch s') = []" by simp
    next
      from Wait show "scan_wg s' = 0" by simp
    next
      fix rs assume "main s' = M_Returned rs"
      with Wait order_mainD [OF od, of rs]
      show "closer s' = CL_Exited \<and> buf (results_ch s') = []
          \<and> sorted (map (\<lambda>r. sint (Port r)) rs)" by simp
    qed
    moreover from Wait sh have "specific_shape ports s'"
      by (simp add: specific_shape_def)
    moreover from Wait ac have "ports_accounted ports s'"
      by (simp add: ports_accounted_def)
    ultimately show ?thesis by (simp add: specific_inv_def)
  next
    case Close
    have "specific_order s'"
    proof (rule specific_orderI)
      fix p assume "p \<in> set (scan_pool s')" "scan_leaving p"
      with Close order_leavingD [OF od, of p]
      show "closed (jobs_ch s') \<and> buf (jobs_ch s') = []" by simp
    next
      from Close order_closerD [OF od] show "scan_wg s' = 0" by simp
    next
      fix rs assume "main s' = M_Returned rs"
      with Close order_mainD [OF od, of rs]
      show "closer s' = CL_Exited \<and> buf (results_ch s') = []
          \<and> sorted (map (\<lambda>r. sint (Port r)) rs)" by simp
    qed
    moreover from Close sh have "specific_shape ports s'"
      by (simp add: specific_shape_def)
    moreover from Close ac have "ports_accounted ports s'"
      by (simp add: ports_accounted_def)
    ultimately show ?thesis by (simp add: specific_inv_def)
  qed
qed

lemma main_inv:
  assumes "main_step s = Inr s'" and "specific_inv ports s"
  shows "specific_inv ports s'"
proof -
  from assms(2) have sh: "specific_shape ports s" and ac: "ports_accounted ports s"
    and od: "specific_order s"
    by (simp_all add: specific_inv_def)
  from assms(1) show ?thesis
  proof (cases rule: main_step_cases)
    case (Collect acc r rest)
    have "specific_order s'"
    proof (rule specific_orderI)
      fix p assume "p \<in> set (scan_pool s')" "scan_leaving p"
      with Collect order_leavingD [OF od, of p]
      show "closed (jobs_ch s') \<and> buf (jobs_ch s') = []" by simp
    next
      assume "closer s' \<noteq> CL_Wait"
      with Collect order_closerD [OF od] show "scan_wg s' = 0" by simp
    next
      fix rs assume "main s' = M_Returned rs"
      with Collect
      show "closer s' = CL_Exited \<and> buf (results_ch s') = []
          \<and> sorted (map (\<lambda>r. sint (Port r)) rs)" by simp
    qed
    moreover from Collect sh have "specific_shape ports s'"
      by (simp add: specific_shape_def)
    moreover from Collect ac have "ports_accounted ports s'"
      by (simp add: ports_accounted_def)
    ultimately show ?thesis by (simp add: specific_inv_def)
  next
    case (Return acc)
    have "specific_order s'"
    proof (rule specific_orderI)
      fix p assume "p \<in> set (scan_pool s')" "scan_leaving p"
      with Return order_leavingD [OF od, of p]
      show "closed (jobs_ch s') \<and> buf (jobs_ch s') = []" by simp
    next
      assume "closer s' \<noteq> CL_Wait"
      with Return order_closerD [OF od] show "scan_wg s' = 0" by simp
    next
      fix rs assume "main s' = M_Returned rs"
      with Return sh
      show "closer s' = CL_Exited \<and> buf (results_ch s') = []
          \<and> sorted (map (\<lambda>r. sint (Port r)) rs)"
        by (auto simp: specific_shape_def sort_by_Port_def)
    qed
    moreover from Return sh have "specific_shape ports s'"
      by (simp add: specific_shape_def)
    moreover from Return ac have "ports_accounted ports s'"
      by (simp add: ports_accounted_def sort_by_Port_def)
    ultimately show ?thesis by (simp add: specific_inv_def)
  qed
qed

lemma scan_step_inv:
  "scan_step net a s = Inr s' \<Longrightarrow> specific_inv ports s \<Longrightarrow> specific_inv ports s'"
  by (cases a) (simp_all add: worker_inv sender_inv closer_inv main_inv)

lemma scan_run_inv:
  "scan_run net sched s = Inr s' \<Longrightarrow> specific_inv ports s \<Longrightarrow> specific_inv ports s'"
proof (induction sched arbitrary: s)
  case Nil
  then show ?case by simp
next
  case (Cons a sched)
  from Cons.prems(1) obtain s1 where a: "scan_step net a s = Inr s1"
    and r: "scan_run net sched s1 = Inr s'"
    by (auto split: sum.splits)
  from a Cons.prems(2) have "specific_inv ports s1"
    by (rule scan_step_inv)
  with r show ?case by (rule Cons.IH)
qed

lemma sint_of_nat_small:
  assumes "L < 2 ^ 63"
  shows "sint (of_nat L :: go_int) = int L"
proof -
  have "(of_nat L :: go_int) = word_of_int (int L)"
    by simp
  then have "sint (of_nat L :: go_int) = signed_take_bit 63 (int L)"
    by (simp only: sint_sbintrunc') simp
  also from assms have "\<dots> = int L"
    by (intro signed_take_bit_int_eq_self) simp_all
  finally show ?thesis .
qed

lemma makechan_length:
  assumes "elemsize * L \<le> maxAlloc - hchanSize" and "0 < elemsize"
  shows "makechan elemsize (of_nat L) = Inr (make_chan L)"
proof -
  from assms have "L \<le> maxAlloc - hchanSize"
    by (cases elemsize) (auto intro: le_trans [OF le_add1])
  then have l: "L < 2 ^ 63"
    by (simp add: maxAlloc_def hchanSize_def)
  then have "L < 2 ^ 64"
    by simp
  then have u: "unat (of_nat L :: go_int) = L"
    by (simp add: unat_of_nat)
  from sint_of_nat_small [OF l] have "\<not> word_sless (of_nat L :: go_int) 0"
    by (simp add: word_sless_alt)
  with u assms(1) show ?thesis
    by (simp add: makechan_def)
qed

lemma ScanSpecificPorts_start_eq:
  assumes "32 * length ports \<le> maxAlloc - hchanSize"
  shows "ScanSpecificPorts_start ps ports =
     Inr (spawn_scanners (range_int (scan_workers ps))
       \<lparr>scanner = ps, jobs_ch = make_chan (length ports),
        results_ch = make_chan (length ports), scan_wg = 0, scan_pool = [],
        sender = S_Ports ports, closer = CL_Wait, main = M_Collect [], netlog = []\<rparr>)"
proof -
  from assms have "8 * length ports \<le> maxAlloc - hchanSize"
    by simp
  with assms show ?thesis
    by (simp add: ScanSpecificPorts_start_def makechan_length)
qed

lemma ScanSpecificPorts_start_inv:
  assumes "ScanSpecificPorts_start ps ports = Inr s" and "0 < scan_workers ps"
    and "32 * length ports \<le> maxAlloc - hchanSize"
  shows "specific_inv ports s"
proof -
  from assms(2) have "0 < nat (scan_workers ps)" by simp
  then have "replicate (nat (scan_workers ps)) SW_Recv \<noteq> []" by simp
  with assms(1) show ?thesis
    by (auto simp: ScanSpecificPorts_start_eq [OF assms(3)] spawn_scanners_eq range_int_def
        make_chan_def specific_inv_def specific_shape_def ports_accounted_def
        specific_order_def sum_ones_replicate sum_empty_replicate simp del: replicate_empty)
qed

subsection \<open>No step panics\<close>

lemma scan_alive_nonneg: "0 \<le> scan_alive p"
  by (cases p) simp_all

lemma sum_scan_alive_nonneg: "0 \<le> sum_list (map scan_alive xs)"
  by (induction xs) (simp_all add: scan_alive_nonneg)

lemma sum_scan_alive_pos:
  "w < length xs \<Longrightarrow> xs ! w \<noteq> SW_Exited \<Longrightarrow> 1 \<le> sum_list (map scan_alive xs)"
proof (induction xs arbitrary: w)
  case Nil
  then show ?case by simp
next
  case (Cons x xs)
  show ?case
  proof (cases w)
    case 0
    with Cons.prems have "scan_alive x = 1" by (cases x) simp_all
    with sum_scan_alive_nonneg [of xs] show ?thesis by simp
  next
    case (Suc v)
    with Cons.prems Cons.IH [of v] have "1 \<le> sum_list (map scan_alive xs)" by simp
    with scan_alive_nonneg [of x] show ?thesis by simp
  qed
qed

lemma sum_scan_alive_zero:
  "sum_list (map scan_alive xs) = 0 \<Longrightarrow> w < length xs \<Longrightarrow> xs ! w = SW_Exited"
  using sum_scan_alive_pos [of w xs] by fastforce

lemma working_not_closed:
  assumes "specific_inv ports s" and "w < length (scan_pool s)"
    and "scan_pool s ! w \<noteq> SW_Exited"
  shows "1 \<le> scan_wg s" and "closer s = CL_Wait" and "\<not> closed (results_ch s)"
proof -
  from assms(1) have sh: "specific_shape ports s" and od: "specific_order s"
    by (simp_all add: specific_inv_def)
  from sh sum_scan_alive_pos [OF assms(2,3)] show w: "1 \<le> scan_wg s"
    by (simp add: specific_shape_def)
  with order_closerD [OF od] show c: "closer s = CL_Wait" by auto
  with sh show "\<not> closed (results_ch s)" by (simp add: specific_shape_def)
qed

lemma worker_no_panic:
  assumes "specific_inv ports s"
  shows "scan_worker_step net w s \<noteq> Inl (Panicked p)"
proof (cases "w < length (scan_pool s)")
  case False
  then show ?thesis by (simp add: scan_worker_step_def)
next
  case True
  show ?thesis
  proof (cases "scan_pool s ! w")
    case SW_Recv
    with True show ?thesis
      by (simp add: scan_worker_step_def chan_recv_def split: list.splits)
  next
    case (SW_Scan port)
    with True show ?thesis
      by (simp add: scan_worker_step_def split: prod.splits)
  next
    case (SW_Send r)
    with True working_not_closed(3) [OF assms True] show ?thesis
      by (simp add: scan_worker_step_def chan_send_def)
  next
    case SW_Done
    with True working_not_closed(1) [OF assms True] show ?thesis
      by (simp add: scan_worker_step_def wg_Done_def)
  next
    case SW_Exited
    with True show ?thesis by (simp add: scan_worker_step_def)
  qed
qed

lemma sender_no_panic:
  assumes "specific_inv ports s"
  shows "sender_step s \<noteq> Inl (Panicked p)"
proof -
  from assms have sh: "specific_shape ports s"
    by (simp add: specific_inv_def)
  show ?thesis
  proof (cases "sender s")
    case (S_Range port endPort)
    with sh show ?thesis by (simp add: specific_shape_def)
  next
    case (S_Ports rest)
    with sh have "\<not> closed (jobs_ch s)" by (simp add: specific_shape_def)
    with S_Ports show ?thesis
      by (cases rest) (simp_all add: sender_step_def chan_send_def chan_close_def)
  next
    case S_Exited
    then show ?thesis by (simp add: sender_step_def)
  qed
qed

lemma closer_no_panic:
  assumes "specific_inv ports s"
  shows "closer_step s \<noteq> Inl (Panicked p)"
proof -
  from assms have sh: "specific_shape ports s"
    by (simp add: specific_inv_def)
  then show ?thesis
    by (cases "closer s")
      (simp_all add: closer_step_def wg_Wait_def chan_close_def specific_shape_def)
qed

lemma main_no_panic: "main_step s \<noteq> Inl (Panicked p)"
  by (cases "main s"; cases "buf (results_ch s)")
    (simp_all add: main_step_def chan_recv_def)

lemma scan_step_no_panic:
  "specific_inv ports s \<Longrightarrow> scan_step net a s \<noteq> Inl (Panicked p)"
  by (cases a) (simp_all add: worker_no_panic sender_no_panic closer_no_panic main_no_panic)

lemma scan_run_no_panic:
  "specific_inv ports s \<Longrightarrow> scan_run net sched s \<noteq> Inl (Panicked p)"
proof (induction sched arbitrary: s)
  case Nil
  then show ?case by simp
next
  case (Cons a sched)
  show ?case
  proof (cases "scan_step net a s")
    case (Inl h)
    with scan_step_no_panic [OF Cons.prems, of net a p] show ?thesis by auto
  next
    case (Inr s1)
    with scan_step_inv [OF Inr Cons.prems] Cons.IH [of s1] show ?thesis by simp
  qed
qed

subsection \<open>Every step takes one off the steps that are left\<close>

lemma worker_steps_left:
  assumes "scan_worker_step net w s = Inr s'"
  shows "Suc (steps_left s') = steps_left s"
  using assms
proof (cases rule: scan_worker_step_cases)
  case (Recv port rest)
  with sum_list_update_add [of w "scan_pool s" worker_weight "SW_Scan port"]
  show ?thesis by (simp add: steps_left_def)
next
  case Closed
  with sum_list_update_add [of w "scan_pool s" worker_weight "SW_Done"]
  show ?thesis by (simp add: steps_left_def)
next
  case (Scan port r log)
  with sum_list_update_add [of w "scan_pool s" worker_weight "SW_Send r"]
  show ?thesis by (simp add: steps_left_def)
next
  case (Send r)
  with sum_list_update_add [of w "scan_pool s" worker_weight "SW_Recv"]
  show ?thesis by (simp add: steps_left_def)
next
  case Done
  with sum_list_update_add [of w "scan_pool s" worker_weight "SW_Exited"]
  show ?thesis by (simp add: steps_left_def)
qed

lemma sender_steps_left:
  assumes "sender_step s = Inr s'" and "list_sender (sender s)"
  shows "Suc (steps_left s') = steps_left s"
  using assms(1)
proof (cases rule: sender_step_cases)
  case (Range port endPort)
  with assms(2) show ?thesis by simp
next
  case (Send port rest)
  then show ?thesis by (simp add: steps_left_def)
next
  case Close
  then show ?thesis by (simp add: steps_left_def)
qed

lemma closer_steps_left:
  assumes "closer_step s = Inr s'"
  shows "Suc (steps_left s') = steps_left s"
  using assms
  by (cases rule: closer_step_cases) (simp_all add: steps_left_def)

lemma main_steps_left:
  assumes "main_step s = Inr s'"
  shows "Suc (steps_left s') = steps_left s"
  using assms
  by (cases rule: main_step_cases) (simp_all add: steps_left_def)

lemma scan_step_steps_left:
  assumes "scan_step net a s = Inr s'" and "specific_inv ports s"
  shows "Suc (steps_left s') = steps_left s"
proof -
  from assms(2) have "list_sender (sender s)"
    by (simp add: specific_inv_def specific_shape_def)
  with assms(1) show ?thesis
    by (cases a)
      (auto dest: worker_steps_left sender_steps_left closer_steps_left main_steps_left)
qed

lemma scan_run_steps_left:
  "scan_run net sched s = Inr s' \<Longrightarrow> specific_inv ports s
     \<Longrightarrow> steps_left s' + length sched = steps_left s"
proof (induction sched arbitrary: s)
  case Nil
  then show ?case by simp
next
  case (Cons a sched)
  from Cons.prems(1) obtain s1 where a: "scan_step net a s = Inr s1"
    and r: "scan_run net sched s1 = Inr s'"
    by (auto split: sum.splits)
  from scan_step_steps_left [OF a Cons.prems(2)] Cons.IH [OF r scan_step_inv [OF a Cons.prems(2)]]
  show ?case by simp
qed

lemma inj_sint: "inj_on (sint :: go_int \<Rightarrow> int) A"
proof (rule inj_onI)
  fix x y :: go_int
  assume "sint x = sint y"
  then have "(word_of_int (sint x) :: go_int) = word_of_int (sint y)" by simp
  then show "x = y" by simp
qed

lemma scan_run_append:
  "scan_run net (as @ bs) s =
     (case scan_run net as s of Inl h \<Rightarrow> Inl h | Inr s' \<Rightarrow> scan_run net bs s')"
  by (induction as arbitrary: s) (simp_all split: sum.splits)

subsection \<open>Some goroutine can always move\<close>

lemma accounted_sizes:
  assumes "ports_accounted ports s"
  shows "length ports =
     length (unsent (sender s)) + length (buf (jobs_ch s))
     + size (sum_list (map scan_holding (scan_pool s)))
     + length (buf (results_ch s)) + length (collected (main s))"
proof -
  from assms have "size (mset ports) =
      size (mset (unsent (sender s)) + mset (buf (jobs_ch s))
        + sum_list (map scan_holding (scan_pool s))
        + mset (map Port (buf (results_ch s))) + mset (map Port (collected (main s))))"
    by (simp only: ports_accounted_def)
  then show ?thesis by simp
qed

lemma holding_size_pos:
  "w < length xs \<Longrightarrow> xs ! w = SW_Send r \<Longrightarrow> 1 \<le> size (sum_list (map scan_holding xs))"
proof (induction xs arbitrary: w)
  case Nil
  then show ?case by simp
next
  case (Cons x xs)
  show ?case
  proof (cases w)
    case 0
    with Cons.prems show ?thesis by simp
  next
    case (Suc v)
    with Cons.prems Cons.IH [of v] have "1 \<le> size (sum_list (map scan_holding xs))"
      by simp
    then show ?thesis by simp
  qed
qed

lemma all_exited_alive:
  "\<forall>w < length xs. xs ! w = SW_Exited \<Longrightarrow> sum_list (map scan_alive xs) = 0"
proof (induction xs)
  case Nil
  then show ?case by simp
next
  case (Cons x xs)
  from Cons.prems have "x = SW_Exited" by auto
  moreover from Cons.prems have "\<forall>w < length xs. xs ! w = SW_Exited" by auto
  ultimately show ?case using Cons.IH by simp
qed

lemma all_exited_scan_holding:
  "\<forall>w < length xs. xs ! w = SW_Exited \<Longrightarrow> sum_list (map scan_holding xs) = {#}"
proof (induction xs)
  case Nil
  then show ?case by simp
next
  case (Cons x xs)
  from Cons.prems have "x = SW_Exited" by auto
  moreover from Cons.prems have "\<forall>w < length xs. xs ! w = SW_Exited" by auto
  ultimately show ?case using Cons.IH by simp
qed

lemma worker_can_move:
  assumes "specific_inv ports s" and "sender s = S_Exited"
    and "w < length (scan_pool s)" and "scan_pool s ! w \<noteq> SW_Exited"
  shows "\<exists>s'. scan_worker_step net w s = Inr s'"
proof -
  from assms(1) have sh: "specific_shape ports s" and ac: "ports_accounted ports s"
    by (simp_all add: specific_inv_def)
  from sh assms(2) have cj: "closed (jobs_ch s)"
    by (simp add: specific_shape_def)
  show ?thesis
  proof (cases "scan_pool s ! w")
    case SW_Recv
    with assms(3) cj show ?thesis
      by (cases "buf (jobs_ch s)") (simp_all add: scan_worker_step_def chan_recv_def)
  next
    case (SW_Scan port)
    with assms(3) show ?thesis
      by (simp add: scan_worker_step_def split: prod.splits)
  next
    case (SW_Send r)
    from holding_size_pos [OF assms(3) SW_Send] accounted_sizes [OF ac] sh
    have "length (buf (results_ch s)) < cap (results_ch s)"
      by (simp add: specific_shape_def)
    with SW_Send assms(3) working_not_closed(3) [OF assms(1,3,4)] show ?thesis
      by (simp add: scan_worker_step_def chan_send_def)
  next
    case SW_Done
    with assms(3) working_not_closed(1) [OF assms(1,3,4)] show ?thesis
      by (simp add: scan_worker_step_def wg_Done_def)
  next
    case SW_Exited
    with assms(4) show ?thesis by simp
  qed
qed

lemma some_step:
  assumes "specific_inv ports s" and "returned (main s) = None"
  shows "\<exists>a s'. scan_step net a s = Inr s'"
proof -
  from assms(1) have sh: "specific_shape ports s" and ac: "ports_accounted ports s"
    and od: "specific_order s"
    by (simp_all add: specific_inv_def)
  show ?thesis
  proof (cases "sender s")
    case (S_Range port endPort)
    with sh show ?thesis by (simp add: specific_shape_def)
  next
    case (S_Ports rest)
    with sh have o: "\<not> closed (jobs_ch s)" by (simp add: specific_shape_def)
    have "\<exists>s'. scan_step net Sender s = Inr s'"
    proof (cases rest)
      case Nil
      with S_Ports o show ?thesis by (simp add: sender_step_def chan_close_def)
    next
      case (Cons port rest')
      with S_Ports accounted_sizes [OF ac] sh
      have "length (buf (jobs_ch s)) < cap (jobs_ch s)"
        by (simp add: specific_shape_def)
      with S_Ports Cons o show ?thesis by (simp add: sender_step_def chan_send_def)
    qed
    then show ?thesis by blast
  next
    case S_Exited
    show ?thesis
    proof (cases "\<exists>w < length (scan_pool s). scan_pool s ! w \<noteq> SW_Exited")
      case True
      then obtain w where "w < length (scan_pool s)" "scan_pool s ! w \<noteq> SW_Exited"
        by blast
      from worker_can_move [OF assms(1) S_Exited this, of net]
      obtain s' where "scan_step net (Scanner w) s = Inr s'" by auto
      then show ?thesis by blast
    next
      case False
      then have "\<forall>w < length (scan_pool s). scan_pool s ! w = SW_Exited" by simp
      from all_exited_alive [OF this] sh have z: "scan_wg s = 0"
        by (simp add: specific_shape_def)
      show ?thesis
      proof (cases "closer s")
        case CL_Wait
        with z have "\<exists>s'. scan_step net Closer s = Inr s'"
          by (simp add: closer_step_def wg_Wait_def)
        then show ?thesis by blast
      next
        case CL_close
        with sh have "\<exists>s'. scan_step net Closer s = Inr s'"
          by (simp add: closer_step_def chan_close_def specific_shape_def)
        then show ?thesis by blast
      next
        case CL_Exited
        with sh have c: "closed (results_ch s)" by (simp add: specific_shape_def)
        from assms(2) obtain acc where "main s = M_Collect acc"
          by (cases "main s") simp_all
        with c have "\<exists>s'. scan_step net Main s = Inr s'"
          by (cases "buf (results_ch s)") (simp_all add: main_step_def chan_recv_def)
        then show ?thesis by blast
      qed
    qed
  qed
qed

lemma can_complete:
  "specific_inv ports s \<Longrightarrow>
     \<exists>sched s'. scan_run net sched s = Inr s' \<and> returned (main s') \<noteq> None"
proof (induction "steps_left s" arbitrary: s rule: less_induct)
  case less
  show ?case
  proof (cases "returned (main s)")
    case (Some rs)
    then have "scan_run net [] s = Inr s \<and> returned (main s) \<noteq> None" by simp
    then show ?thesis by blast
  next
    case None
    from some_step [OF less.prems None, of net]
    obtain a s1 where a: "scan_step net a s = Inr s1" by blast
    from scan_step_steps_left [OF a less.prems] have "steps_left s1 < steps_left s" by simp
    from less.hyps [OF this scan_step_inv [OF a less.prems]]
    obtain sched s' where "scan_run net sched s1 = Inr s'" "returned (main s') \<noteq> None"
      by blast
    with a have "scan_run net (a # sched) s = Inr s' \<and> returned (main s') \<noteq> None"
      by simp
    then show ?thesis by blast
  qed
qed

subsection \<open>What is returned\<close>

lemma returned_sorted_ports:
  assumes "specific_inv ports s" and "returned (main s) = Some rs"
  shows "map Port rs = sort_key sint ports"
proof -
  from assms(1) have sh: "specific_shape ports s" and ac: "ports_accounted ports s"
    and od: "specific_order s"
    by (simp_all add: specific_inv_def)
  from assms(2) have m: "main s = M_Returned rs"
    by (cases "main s") simp_all
  from order_mainD [OF od m] have c: "closer s = CL_Exited" and b: "buf (results_ch s) = []"
    and so: "sorted (map (\<lambda>r. sint (Port r)) rs)"
    by simp_all
  from c order_closerD [OF od] have "scan_wg s = 0" by simp
  with sh have z: "sum_list (map scan_alive (scan_pool s)) = 0"
    by (simp add: specific_shape_def)
  then have ex: "\<forall>w < length (scan_pool s). scan_pool s ! w = SW_Exited"
    by (blast intro: sum_scan_alive_zero)
  from sh have ne: "scan_pool s \<noteq> []" by (simp add: specific_shape_def)
  with ex have "hd (scan_pool s) = SW_Exited" by (simp add: hd_conv_nth)
  moreover from ne have "hd (scan_pool s) \<in> set (scan_pool s)" by (rule hd_in_set)
  ultimately have "closed (jobs_ch s) \<and> buf (jobs_ch s) = []"
    using order_leavingD [OF od, of SW_Exited] by simp
  with sh have j: "buf (jobs_ch s) = []" and u: "unsent (sender s) = []"
    by (simp_all add: specific_shape_def)
  from ac j u b m all_exited_scan_holding [OF ex] have "mset ports = mset (map Port rs)"
    by (simp add: ports_accounted_def)
  moreover from so have "sorted (map sint (map Port rs))" by (simp add: comp_def)
  ultimately have "sort_key sint ports = map Port rs"
    by (rule sort_key_inj_key_eq [OF _ inj_sint])
  then show ?thesis by simp
qed

lemma sum_twos_replicate: "sum_list (replicate n (2::nat)) = 2 * n"
  by (induction n) simp_all

lemma ScanSpecificPorts_start_steps:
  "ScanSpecificPorts_start ps ports = Inr s \<Longrightarrow> 32 * length ports \<le> maxAlloc - hchanSize
     \<Longrightarrow> steps_left s = 5 * length ports + 2 * nat (scan_workers ps) + 4"
  by (auto simp: ScanSpecificPorts_start_eq spawn_scanners_eq range_int_def make_chan_def
      steps_left_def sum_twos_replicate)

lemma ScanSpecificPorts_total:
  assumes "0 < scan_workers ps" and "32 * length ports \<le> maxAlloc - hchanSize"
  shows "ScanSpecificPorts net ps ports sched \<noteq> Inl (Panicked p)"
    and "ScanSpecificPorts net ps ports sched = Inr s \<Longrightarrow>
      length sched + steps_left s = 5 * length ports + 2 * nat (scan_workers ps) + 4"
    and "ScanSpecificPorts net ps ports sched = Inr s \<Longrightarrow>
      \<exists>sched' s'. ScanSpecificPorts net ps ports (sched @ sched') = Inr s'
        \<and> returned (main s') \<noteq> None"
    and "ScanSpecificPorts net ps ports sched = Inr s \<Longrightarrow> returned (main s) = Some rs
      \<Longrightarrow> map Port rs = sort_key sint ports"
proof -
  obtain s0 where i: "ScanSpecificPorts_start ps ports = Inr s0"
    by (simp add: ScanSpecificPorts_start_eq [OF assms(2)])
  from i assms have inv0: "specific_inv ports s0"
    by (rule ScanSpecificPorts_start_inv)
  from i have r: "ScanSpecificPorts net ps ports sched = scan_run net sched s0" for sched
    by (simp add: ScanSpecificPorts_def)
  from scan_run_no_panic [OF inv0] show "ScanSpecificPorts net ps ports sched \<noteq> Inl (Panicked p)"
    by (simp add: r)
  {
    assume "ScanSpecificPorts net ps ports sched = Inr s"
    then have a: "scan_run net sched s0 = Inr s" by (simp add: r)
    from a inv0 have inv: "specific_inv ports s" by (rule scan_run_inv)
    from scan_run_steps_left [OF a inv0] ScanSpecificPorts_start_steps [OF i assms(2)]
    show "length sched + steps_left s = 5 * length ports + 2 * nat (scan_workers ps) + 4"
      by simp
    from can_complete [OF inv, of net] obtain sched' s'
      where "scan_run net sched' s = Inr s'" "returned (main s') \<noteq> None" by blast
    with a have "scan_run net (sched @ sched') s0 = Inr s' \<and> returned (main s') \<noteq> None"
      by (simp add: scan_run_append)
    then show "\<exists>sched' s'. ScanSpecificPorts net ps ports (sched @ sched') = Inr s'
        \<and> returned (main s') \<noteq> None"
      by (auto simp: r)
    {
      assume "returned (main s) = Some rs"
      with inv show "map Port rs = sort_key sint ports" by (rule returned_sorted_ports)
    }
  }
qed

text \<open>
  C7: for a scanner with workers (at least one; the workers are the ones that complete
  the probes), every network, and every order in which the scheduler lets the goroutines
  run,
  \<open>ScanSpecificPorts([22, 80, 443, 3000, 5432])\<close> does not panic, runs for at most
  \<open>29 + 2 * workers\<close> steps, can always be run on until it returns, and what it
  returns is exactly 5 results whose ports are 22, 80, 443, 3000, 5432 in this order.
\<close>

theorem ScanSpecificPorts_five_ports:
  assumes "0 < scan_workers ps"
  shows "(\<forall>p. ScanSpecificPorts net ps [22, 80, 443, 3000, 5432] sched \<noteq> Inl (Panicked p))
     \<and> (\<forall>s. ScanSpecificPorts net ps [22, 80, 443, 3000, 5432] sched = Inr s \<longrightarrow>
          length sched \<le> 29 + 2 * nat (scan_workers ps)
          \<and> (\<exists>sched' s' rs.
                ScanSpecificPorts net ps [22, 80, 443, 3000, 5432] (sched @ sched') = Inr s'
                \<and> returned (main s') = Some rs)
          \<and> (\<forall>rs. returned (main s) = Some rs \<longrightarrow>
                length rs = 5 \<and> map Port rs = [22, 80, 443, 3000, 5432]))"
proof -
  let ?ports = "[22, 80, 443, 3000, 5432] :: go_int list"
  have sz: "32 * length ?ports \<le> maxAlloc - hchanSize"
    by (simp add: maxAlloc_def hchanSize_def)
  note total = ScanSpecificPorts_total [OF assms sz]
  show ?thesis
  proof (intro conjI allI impI)
    fix p show "ScanSpecificPorts net ps ?ports sched \<noteq> Inl (Panicked p)"
      by (rule total(1))
  next
    fix s assume a: "ScanSpecificPorts net ps ?ports sched = Inr s"
    from total(2) [OF a]
    show "length sched \<le> 29 + 2 * nat (scan_workers ps)" by simp
    from total(3) [OF a]
    show "\<exists>sched' s' rs. ScanSpecificPorts net ps ?ports (sched @ sched') = Inr s'
        \<and> returned (main s') = Some rs"
      by fastforce
  next
    fix s rs assume a: "ScanSpecificPorts net ps ?ports sched = Inr s"
      and b: "returned (main s) = Some rs"
    from total(4) [OF a b]
    show m: "map Port rs = ?ports" by simp
    from arg_cong [OF m, of length] show "length rs = 5" by simp
  qed
qed

text \<open>
  The theorem at a scanner of two workers and a run to the end in which the results
  arrive in the order 80, 443, 3000, 22, 5432.
\<close>

theorem ScanSpecificPorts_five_ports_witness:
  "0 < scan_workers (NewPortScanner ''localhost'' 500000000 2)
   \<and> length five_ports_schedule = 33
   \<and> (\<exists>s rs. ScanSpecificPorts only_ssh (NewPortScanner ''localhost'' 500000000 2)
          [22, 80, 443, 3000, 5432] five_ports_schedule = Inr s
        \<and> map Port (buf (results_ch s) @ collected (main s)) = map Port rs
        \<and> returned (main s) = Some rs
        \<and> map Open rs = [True, False, False, False, False]
        \<and> length rs = 5 \<and> map Port rs = [22, 80, 443, 3000, 5432])"
proof -
  let ?ps = "NewPortScanner ''localhost'' 500000000 2"
  have w: "0 < scan_workers ?ps"
    by (simp add: NewPortScanner_def)
  have "\<exists>s rs. ScanSpecificPorts only_ssh ?ps [22, 80, 443, 3000, 5432] five_ports_schedule = Inr s
      \<and> returned (main s) = Some rs \<and> map Open rs = [True, False, False, False, False]
      \<and> buf (results_ch s) = []"
    by (simp add: five_ports_schedule_def scan_defs ScanPort_defs range_int_2 sort_by_Port_def
        only_ssh_def)
  then obtain s rs
    where a: "ScanSpecificPorts only_ssh ?ps [22, 80, 443, 3000, 5432] five_ports_schedule = Inr s"
      and b: "returned (main s) = Some rs" and c: "map Open rs = [True, False, False, False, False]"
      and d: "buf (results_ch s) = []"
    by (elim exE conjE)
  from b have "collected (main s) = rs"
    by (cases "main s") simp_all
  with ScanSpecificPorts_five_ports [OF w, of only_ssh five_ports_schedule] a b c d w
  show ?thesis
    by (simp add: five_ports_schedule_def)
qed

end
